theory Spec2Isabelle
  imports Complex_Main "HOL-Library.Product_Lexorder"
begin

section \<open>Strings\<close>

text \<open>
  A Python \<open>str\<close> is a list of code points, each an integer; a Python string holds
  code points from 0 to 1114111. \<open>S\<close> is the string of an ASCII literal.
\<close>

type_synonym pystr = "int list"

definition S :: "string \<Rightarrow> pystr" where
  "S s = map of_char s"

text \<open>
  \<open>str.encode("utf-8")\<close> raises \<open>UnicodeEncodeError\<close> on a string with a surrogate
  code point (55296 to 57343), and so does \<open>sqlite3\<close> when it binds such a string.
\<close>

definition surrogate :: "int \<Rightarrow> bool" where
  "surrogate c = (55296 \<le> c \<and> c \<le> 57343)"

definition encodable :: "pystr \<Rightarrow> bool" where
  "encodable s = list_all (\<lambda>c. 0 \<le> c \<and> c < 1114112 \<and> \<not> surrogate c) s"

text \<open>\<open>str.isspace\<close> of one character: the white space of Unicode.\<close>

definition isspace :: "int \<Rightarrow> bool" where
  "isspace c =
     ((9 \<le> c \<and> c \<le> 13) \<or> (28 \<le> c \<and> c \<le> 32) \<or> c = 133 \<or> c = 160 \<or> c = 5760 \<or>
      (8192 \<le> c \<and> c \<le> 8202) \<or> c = 8232 \<or> c = 8233 \<or> c = 8239 \<or> c = 8287 \<or>
      c = 12288)"

definition strip :: "pystr \<Rightarrow> pystr" where
  "strip s = rev (dropWhile isspace (rev (dropWhile isspace s)))"

definition startswith :: "pystr \<Rightarrow> pystr \<Rightarrow> bool" where
  "startswith s p = (take (length p) s = p)"

text \<open>\<open>p in s\<close> on strings: \<open>p\<close> is a contiguous part of \<open>s\<close>.\<close>

fun starts_here :: "pystr \<Rightarrow> pystr \<Rightarrow> bool" where
  "starts_here [] s = True"
| "starts_here (p # ps) [] = False"
| "starts_here (p # ps) (c # cs) = (p = c \<and> starts_here ps cs)"

fun contains :: "pystr \<Rightarrow> pystr \<Rightarrow> bool" where
  "contains p [] = starts_here p []"
| "contains p (c # cs) = (starts_here p (c # cs) \<or> contains p cs)"

text \<open>
  \<open>str.lower\<close> follows the case tables of Unicode and looks at the neighbours of a
  character (the final sigma). The tables are not code of the repository: the function
  is an argument of what calls it. \<open>lower_excerpt\<close> is \<open>str.lower\<close> on text made of
  ASCII, of U+0130 (capital I with dot, lowered to \<open>i\<close> and the combining dot U+0307) and
  of U+212A (the Kelvin sign, lowered to \<open>k\<close>); it keeps every other code point.
\<close>

type_synonym lower_fn = "pystr \<Rightarrow> pystr"

definition lower_char_excerpt :: "int \<Rightarrow> pystr" where
  "lower_char_excerpt c =
     (if 65 \<le> c \<and> c \<le> 90 then [c + 32]
      else if c = 304 then [105, 775]
      else if c = 8490 then [107]
      else [c])"

definition lower_excerpt :: lower_fn where
  "lower_excerpt s = concat (map lower_char_excerpt s)"

text \<open>\<open>str\<close> of an integer, for the cursor and the key of a story without URL.\<close>

fun digits_of :: "nat \<Rightarrow> pystr" where
  "digits_of n =
     (if n < 10 then [48 + int n]
      else digits_of (n div 10) @ [48 + int (n mod 10)])"

definition str_int :: "int \<Rightarrow> pystr" where
  "str_int i = (if i < 0 then 45 # digits_of (nat (- i)) else digits_of (nat i))"

section \<open>Exceptions\<close>

text \<open>
  The exceptions that the modelled code can raise. A function that can raise returns a
  sum, with the exception on the left.
\<close>

datatype py_error = UnicodeEncodeError | OverflowError | IntegrityError

section \<open>Content compression\<close>

text \<open>
  \<open>compress_content\<close> and \<open>decompress_content\<close> call three library codecs:
  \<open>str.encode("utf-8")\<close> / \<open>bytes.decode("utf-8")\<close>, \<open>zlib.compress\<close> /
  \<open>zlib.decompress\<close> and \<open>base64.b64encode\<close> / \<open>base64.b64decode\<close>. They are not
  code of the repository, so they are parameters of the model, collected in a record. A
  codec that raises returns \<open>None\<close>; the two compressing encoders never raise.
\<close>

type_synonym bytes = "char list"

record codec =
  utf8_encode :: "pystr \<Rightarrow> bytes option"
  utf8_decode :: "bytes \<Rightarrow> pystr option"
  zlib_compress :: "bytes \<Rightarrow> bytes"
  zlib_decompress :: "bytes \<Rightarrow> bytes option"
  b64encode :: "bytes \<Rightarrow> pystr"
  b64decode :: "pystr \<Rightarrow> bytes option"

text \<open>
  The contract of the libraries: the UTF-8 encoder raises exactly on the strings that
  are not encodable, and each decoder inverts its encoder.
\<close>

definition codec_ok :: "codec \<Rightarrow> bool" where
  "codec_ok K =
     ((\<forall>s. (utf8_encode K s = None) = (\<not> encodable s)) \<and>
      (\<forall>s b. utf8_encode K s = Some b \<longrightarrow> utf8_decode K b = Some s) \<and>
      (\<forall>b. zlib_decompress K (zlib_compress K b) = Some b) \<and>
      (\<forall>b. b64decode K (b64encode K b) = Some b))"

definition COMPRESS_PREFIX :: pystr where
  "COMPRESS_PREFIX = S ''z:''"

definition compress_content :: "codec \<Rightarrow> pystr \<Rightarrow> py_error + pystr" where
  "compress_content K text =
     (if text = [] then Inr text
      else (case utf8_encode K text of
              None \<Rightarrow> Inl UnicodeEncodeError
            | Some raw \<Rightarrow> Inr (COMPRESS_PREFIX @ b64encode K (zlib_compress K raw))))"

text \<open>The \<open>try ... except Exception: return data\<close> is the three \<open>None\<close> branches.\<close>

definition decompress_content :: "codec \<Rightarrow> pystr \<Rightarrow> pystr" where
  "decompress_content K data =
     (if data = [] then data
      else if \<not> startswith data COMPRESS_PREFIX then data
      else (case b64decode K (drop (length COMPRESS_PREFIX) data) of
              None \<Rightarrow> data
            | Some compressed \<Rightarrow>
                (case zlib_decompress K compressed of
                   None \<Rightarrow> data
                 | Some raw \<Rightarrow>
                     (case utf8_decode K raw of None \<Rightarrow> data | Some s \<Rightarrow> s))))"

text \<open>
  A small codec to run the definitions on. The text encoder writes every code point as
  three bytes and raises on text that is not encodable, the compressor reverses the
  bytes, and the transfer encoding writes every byte twice.
\<close>

definition three_bytes :: "int \<Rightarrow> bytes" where
  "three_bytes c = [char_of (c div 65536), char_of (c div 256), char_of c]"

fun from_three_bytes :: "bytes \<Rightarrow> pystr option" where
  "from_three_bytes [] = Some []"
| "from_three_bytes (a # b # c # rest) =
     (case from_three_bytes rest of
        None \<Rightarrow> None
      | Some r \<Rightarrow> Some ((of_char a * 65536 + of_char b * 256 + of_char c) # r))"
| "from_three_bytes rest = None"

fun undouble :: "pystr \<Rightarrow> bytes option" where
  "undouble [] = Some []"
| "undouble [a] = None"
| "undouble (a # b # cs) =
     (if a = b then (case undouble cs of None \<Rightarrow> None | Some r \<Rightarrow> Some (char_of a # r))
      else None)"

definition toy_codec :: codec where
  "toy_codec =
     \<lparr> utf8_encode = (\<lambda>s. if encodable s then Some (concat (map three_bytes s)) else None),
       utf8_decode = from_three_bytes,
       zlib_compress = rev, zlib_decompress = (\<lambda>b. Some (rev b)),
       b64encode = (\<lambda>b. concat (map (\<lambda>c. [of_char c, of_char c]) b)),
       b64decode = undouble \<rparr>"

section \<open>Blocking detection\<close>

definition BLOCKING_PATTERNS :: "pystr list" where
  "BLOCKING_PATTERNS =
     map S
       [''captcha'', ''please verify'', ''access denied'', ''forbidden'', ''rate limit'',
        ''too many requests'', ''blocked'', ''unusual traffic'', ''security check'',
        ''ddos protection'', ''challenge-platform'', ''hcaptcha'', ''recaptcha'',
        ''just a moment'', ''checking your browser'', ''enable javascript'',
        ''redirecting'']"

text \<open>
  \<open>BLOCKING_REGEX\<close> is the alternation of the patterns, compiled with
  \<open>re.IGNORECASE\<close>. No pattern has a regex metacharacter, so each alternative is a
  literal, and the characters of the patterns are the space, the hyphen and small ASCII
  letters. Under \<open>re.IGNORECASE\<close> such a pattern character \<open>p\<close> matches itself and, when
  it is a letter, its capital; besides, \<open>i\<close> matches U+0130 and U+0131, \<open>k\<close> matches
  U+212A and \<open>s\<close> matches U+017F. \<open>search\<close> tries every position of the text.
\<close>

definition ci_eq :: "int \<Rightarrow> int \<Rightarrow> bool" where
  "ci_eq p c =
     (c = p \<or> (97 \<le> p \<and> p \<le> 122 \<and> c + 32 = p) \<or>
      (p = 105 \<and> (c = 304 \<or> c = 305)) \<or> (p = 107 \<and> c = 8490) \<or> (p = 115 \<and> c = 383))"

fun match_here_ci :: "pystr \<Rightarrow> pystr \<Rightarrow> bool" where
  "match_here_ci [] s = True"
| "match_here_ci (p # ps) [] = False"
| "match_here_ci (p # ps) (c # cs) = (ci_eq p c \<and> match_here_ci ps cs)"

fun search_ci :: "pystr \<Rightarrow> pystr \<Rightarrow> bool" where
  "search_ci p [] = match_here_ci p []"
| "search_ci p (c # cs) = (match_here_ci p (c # cs) \<or> search_ci p cs)"

definition BLOCKING_REGEX_search :: "pystr \<Rightarrow> bool" where
  "BLOCKING_REGEX_search s = list_ex (\<lambda>p. search_ci p s) BLOCKING_PATTERNS"

definition MIN_CONTENT_LENGTH :: nat where
  "MIN_CONTENT_LENGTH = 200"

definition detect_blocking :: "lower_fn \<Rightarrow> pystr \<Rightarrow> bool" where
  "detect_blocking str_lower content =
     (if content = [] then False
      else if length content < MIN_CONTENT_LENGTH then
        (if BLOCKING_REGEX_search content then True else False)
      else if BLOCKING_REGEX_search (str_lower (take 2000 content)) then
        (if length content > 3000 then False else True)
      else False)"

text \<open>
  The specification's words, to compare with: a pattern occurs case-insensitively in a
  text when some window of the text matches the pattern, character by character, up to
  case.
\<close>

definition occurs_ci :: "pystr \<Rightarrow> pystr \<Rightarrow> bool" where
  "occurs_ci p c =
     (\<exists>i. i + length p \<le> length c \<and> list_all2 ci_eq p (take (length p) (drop i c)))"

definition some_pattern_occurs :: "pystr \<Rightarrow> bool" where
  "some_pattern_occurs c = (\<exists>p \<in> set BLOCKING_PATTERNS. occurs_ci p c)"

text \<open>
  A page of the text \<open>RATE L\<close>, U+0130, \<open>M\<close>, U+0130, \<open>T\<close>: alone, and followed by
  301 letters \<open>x\<close>.
\<close>

definition rate_limit_text :: pystr where
  "rate_limit_text = S ''RATE L'' @ [304] @ S ''M'' @ [304] @ S ''T''"

definition rate_limit_page :: pystr where
  "rate_limit_page = rate_limit_text @ replicate 301 120"

section \<open>The store\<close>

text \<open>
  The SQLite tables, each a list of rows in insertion order. \<open>INTEGER\<close> columns are
  \<open>int\<close>, nullable \<open>TEXT\<close> columns are optional strings, the \<open>REAL\<close> billing column
  is \<open>real\<close> (its values are stored, copied and compared with 0 only), and a
  \<open>TIMESTAMP\<close> is the number of seconds since the epoch, so that the comparison of two
  timestamps is the comparison of their texts in SQLite. \<open>CURRENT_TIMESTAMP\<close> and
  \<open>time.time()\<close> are the argument \<open>now\<close> of each operation. The status and the source
  of a story are tags that the code writes as literals; they are ASCII strings.
\<close>

type_synonym timestamp = int

record story =
  story_id :: int
  title :: pystr
  url :: "pystr option"
  domain :: "pystr option"
  by_user :: "pystr option"
  time :: int
  score :: int
  descendants :: int
  content :: "pystr option"
  content_status :: string
  content_attempts :: int
  content_source :: "string option"
  browser_ms :: real
  hit_front_page :: int
  front_page_rank :: "int option"
  teaser :: "pystr option"
  created_at :: timestamp
  updated_at :: timestamp

record cache_row =
  c_url :: "pystr option"
  c_content :: "pystr option"
  c_source :: "string option"
  c_browser_ms :: real
  c_fetched_at :: timestamp

record usage_row =
  u_story_id :: int
  u_url :: "pystr option"
  u_browser_ms :: real
  u_source :: "string option"
  u_created_at :: timestamp

record db =
  stories :: "story list"
  fetched_urls :: "cache_row list"
  usage_log :: "usage_row list"
  read_later :: "(int \<times> timestamp) list"
  dismissed :: "(int \<times> timestamp) list"
  history :: "(int \<times> timestamp) list"
  blocked_domains :: "pystr list"
  blocked_words :: "pystr list"
  merit_words :: "(pystr \<times> int) list"
  demerit_words :: "(pystr \<times> int) list"
  merit_domains :: "(pystr \<times> int) list"
  demerit_domains :: "(pystr \<times> int) list"

text \<open>The schema's constraints: \<open>id\<close> is the primary key of \<open>stories\<close>.\<close>

definition pk_ok :: "db \<Rightarrow> bool" where
  "pk_ok d = distinct (map story_id (stories d))"

text \<open>
  Binding the parameters of a statement: \<open>sqlite3\<close> takes them in order and raises
  \<open>OverflowError\<close> on an integer outside 64 bits and \<open>UnicodeEncodeError\<close> on text that
  UTF-8 cannot encode. A value read from the store, a literal of the code and a
  compressed text (ASCII) always bind; the model checks the values that arrive from
  outside: from HN, from the renderer and from the HTTP routes.
\<close>

definition in_int64 :: "int \<Rightarrow> bool" where
  "in_int64 i = (- 9223372036854775808 \<le> i \<and> i \<le> 9223372036854775807)"

datatype param = PInt int | PText "pystr option"

fun bind_error :: "param list \<Rightarrow> py_error option" where
  "bind_error [] = None"
| "bind_error (PInt i # ps) = (if in_int64 i then bind_error ps else Some OverflowError)"
| "bind_error (PText None # ps) = bind_error ps"
| "bind_error (PText (Some s) # ps) =
     (if encodable s then bind_error ps else Some UnicodeEncodeError)"

text \<open>\<open>UPDATE t SET ... WHERE P\<close>: every row that satisfies \<open>P\<close> is rewritten.\<close>

definition update_where :: "('r \<Rightarrow> bool) \<Rightarrow> ('r \<Rightarrow> 'r) \<Rightarrow> 'r list \<Rightarrow> 'r list" where
  "update_where P f rows = map (\<lambda>r. if P r then f r else r) rows"

text \<open>Python's truth value of an optional string: \<open>None\<close> and \<open>""\<close> are false.\<close>

fun truthy :: "pystr option \<Rightarrow> bool" where
  "truthy None = False"
| "truthy (Some s) = (s \<noteq> [])"

definition TEASER_LENGTH :: nat where
  "TEASER_LENGTH = 300"

definition MAX_RETRIES :: int where
  "MAX_RETRIES = 3"

text \<open>
  The store after a call that can raise: a call that raises has written nothing.
\<close>

definition store_after :: "db \<Rightarrow> py_error + db \<Rightarrow> db" where
  "store_after db0 r = (case r of Inl e \<Rightarrow> db0 | Inr db1 \<Rightarrow> db1)"

subsection \<open>Story operations\<close>

text \<open>The story dictionary that the two parsers of the ingestor build.\<close>

record story_dict =
  d_id :: int
  d_title :: pystr
  d_url :: "pystr option"
  d_text :: "pystr option"
  d_domain :: "pystr option"
  d_by :: "pystr option"
  d_time :: int
  d_score :: int
  d_descendants :: int

text \<open>A fresh row: the columns of the \<open>INSERT\<close> and the defaults of the schema.\<close>

definition new_story ::
  "story_dict \<Rightarrow> pystr option \<Rightarrow> string \<Rightarrow> string option \<Rightarrow> timestamp \<Rightarrow> story" where
  "new_story d c st src now =
     \<lparr> story_id = d_id d, title = d_title d, url = d_url d, domain = d_domain d,
       by_user = d_by d, time = d_time d, score = d_score d, descendants = d_descendants d,
       content = c, content_status = st, content_attempts = 0, content_source = src,
       browser_ms = 0, hit_front_page = 0, front_page_rank = None, teaser = None,
       created_at = now, updated_at = now \<rparr>"

definition has_story :: "db \<Rightarrow> int \<Rightarrow> bool" where
  "has_story d i = list_ex (\<lambda>s. story_id s = i) (stories d)"

text \<open>
  The eight parameters that both statements of \<open>upsert_story\<close> bind first. The ninth
  of the statement for a self post is the compressed text, which is ASCII and binds.
\<close>

definition story_params :: "story_dict \<Rightarrow> param list" where
  "story_params d =
     [PInt (d_id d), PText (Some (d_title d)), PText (d_url d), PText (d_domain d),
      PText (d_by d), PInt (d_time d), PInt (d_score d), PInt (d_descendants d)]"

definition upsert_story :: "codec \<Rightarrow> timestamp \<Rightarrow> story_dict \<Rightarrow> db \<Rightarrow> py_error + db" where
  "upsert_story K now d db0 =
     (if \<not> truthy (d_url d) \<and> truthy (d_text d) then
        (case compress_content K (the (d_text d)) of
           Inl e \<Rightarrow> Inl e
         | Inr compressed_text \<Rightarrow>
             (case bind_error (story_params d) of
                Some e \<Rightarrow> Inl e
              | None \<Rightarrow>
                  Inr (if has_story db0 (d_id d) then
                         db0\<lparr>stories := update_where (\<lambda>s. story_id s = d_id d)
                           (\<lambda>s. s\<lparr>score := d_score d, descendants := d_descendants d,
                                  content := (case content s of
                                                None \<Rightarrow> Some compressed_text
                                              | Some c \<Rightarrow> Some c),
                                  content_status := (if content s = None then ''done''
                                                     else content_status s),
                                  content_source := (if content s = None then Some ''hn_text''
                                                     else content_source s),
                                  updated_at := now\<rparr>)
                           (stories db0)\<rparr>
                       else
                         db0\<lparr>stories := stories db0 @
                           [new_story d (Some compressed_text) ''done'' (Some ''hn_text'')
                              now]\<rparr>)))
      else
        (case bind_error (story_params d) of
           Some e \<Rightarrow> Inl e
         | None \<Rightarrow>
             Inr (if has_story db0 (d_id d) then
                    db0\<lparr>stories := update_where (\<lambda>s. story_id s = d_id d)
                      (\<lambda>s. s\<lparr>score := d_score d, descendants := d_descendants d,
                             updated_at := now\<rparr>)
                      (stories db0)\<rparr>
                  else
                    db0\<lparr>stories := stories db0 @ [new_story d None ''pending'' None now]\<rparr>)))"

definition make_teaser :: "pystr \<Rightarrow> pystr" where
  "make_teaser text =
     (let t = strip (take TEASER_LENGTH text) in
      if length text > TEASER_LENGTH then t @ S ''...'' else t)"

definition update_content ::
  "codec \<Rightarrow> int \<Rightarrow> pystr option \<Rightarrow> string \<Rightarrow> string option \<Rightarrow> real \<Rightarrow> timestamp \<Rightarrow> db \<Rightarrow>
   py_error + db" where
  "update_content K sid c status source ms now db0 =
     (let teaser' =
        (if truthy c then
           (let text = (if startswith (the c) COMPRESS_PREFIX
                        then decompress_content K (the c) else the c)
            in Some (make_teaser text))
         else None)
      in case bind_error [PText c, PText teaser', PInt sid] of
           Some e \<Rightarrow> Inl e
         | None \<Rightarrow>
             Inr (db0\<lparr>stories := update_where (\<lambda>s. story_id s = sid)
                    (\<lambda>s. s\<lparr>content := c, content_status := status, content_source := source,
                           browser_ms := ms, teaser := teaser', updated_at := now\<rparr>)
                    (stories db0)\<rparr>))"

subsection \<open>The content queue\<close>

record job =
  job_id :: int
  job_url :: "pystr option"
  job_domain :: "pystr option"
  job_attempts :: int

text \<open>The \<open>WHERE\<close> clause of the subquery of the claim.\<close>

definition claimable :: "int \<Rightarrow> story \<Rightarrow> bool" where
  "claimable max_attempts s =
     ((content_status s = ''pending'' \<or> content_status s = ''retry'') \<and>
      url s \<noteq> None \<and> content_attempts s < max_attempts)"

text \<open>
  \<open>ORDER BY content_attempts ASC, time ASC LIMIT 1\<close>: the first row of the sorted
  candidates. SQL leaves the order of equal rows open; the model sorts stably, so that
  of equal rows the first of the table wins.
\<close>

definition next_candidate :: "int \<Rightarrow> story list \<Rightarrow> story option" where
  "next_candidate max_attempts rows =
     (case sort_key (\<lambda>s. (content_attempts s, time s)) (filter (claimable max_attempts) rows) of
        [] \<Rightarrow> None
      | s # rest \<Rightarrow> Some s)"

text \<open>
  The \<open>UPDATE ... WHERE id = (subquery) RETURNING\<close>: the rows with the chosen id are
  updated, and \<open>fetchone\<close> takes the first returned row.
\<close>

definition claim_next_content_job :: "int \<Rightarrow> timestamp \<Rightarrow> db \<Rightarrow> job option \<times> db" where
  "claim_next_content_job max_attempts now db0 =
     (case next_candidate max_attempts (stories db0) of
        None \<Rightarrow> (None, db0)
      | Some c \<Rightarrow>
          (let claim = (\<lambda>s. s\<lparr>content_status := ''fetching'',
                               content_attempts := content_attempts s + 1,
                               updated_at := now\<rparr>);
               returned = map claim (filter (\<lambda>s. story_id s = story_id c) (stories db0))
           in (case returned of
                 [] \<Rightarrow> (None, db0)
               | r # rest \<Rightarrow>
                   (Some \<lparr>job_id = story_id r, job_url = url r, job_domain = domain r,
                          job_attempts = content_attempts r\<rparr>,
                    db0\<lparr>stories := update_where (\<lambda>s. story_id s = story_id c) claim
                                      (stories db0)\<rparr>))))"

text \<open>
  \<open>complete_content_job\<close> compresses the content and then runs its \<open>UPDATE\<close>, so it
  raises when \<open>compress_content\<close> does. Its callers pass the id of a claimed job.
\<close>

definition complete_content_job_update ::
  "int \<Rightarrow> pystr option \<Rightarrow> string \<Rightarrow> string option \<Rightarrow> real \<Rightarrow> timestamp \<Rightarrow> db \<Rightarrow> db" where
  "complete_content_job_update sid compressed status source ms now db0 =
     db0\<lparr>stories := update_where (\<lambda>s. story_id s = sid)
       (\<lambda>s. s\<lparr>content := compressed, content_status := status,
              content_source := source, browser_ms := ms, updated_at := now\<rparr>)
       (stories db0)\<rparr>"

definition complete_content_job ::
  "codec \<Rightarrow> int \<Rightarrow> pystr option \<Rightarrow> string \<Rightarrow> string option \<Rightarrow> real \<Rightarrow> timestamp \<Rightarrow> db \<Rightarrow>
   py_error + db" where
  "complete_content_job K sid c status source ms now db0 =
     (if truthy c then
        (case compress_content K (the c) of
           Inl e \<Rightarrow> Inl e
         | Inr compressed \<Rightarrow>
             Inr (complete_content_job_update sid (Some compressed) status source ms now db0))
      else Inr (complete_content_job_update sid c status source ms now db0))"

definition retry_content_job :: "int \<Rightarrow> timestamp \<Rightarrow> db \<Rightarrow> db" where
  "retry_content_job sid now db0 =
     db0\<lparr>stories := update_where (\<lambda>s. story_id s = sid)
       (\<lambda>s. s\<lparr>content_status := ''retry'', updated_at := now\<rparr>) (stories db0)\<rparr>"

definition terminal :: "string \<Rightarrow> bool" where
  "terminal st = (st = ''done'' \<or> st = ''failed'' \<or> st = ''blocked'' \<or> st = ''skipped'')"

text \<open>
  The three updates of the stuck-job cleanup, in the order of the source; the result is
  the number of rows they matched and the new store.
\<close>

definition cleanup_stuck_content_jobs :: "int \<Rightarrow> timestamp \<Rightarrow> db \<Rightarrow> nat \<times> db" where
  "cleanup_stuck_content_jobs max_attempts now db0 =
     (let p1 = (\<lambda>s. url s = None \<and> \<not> terminal (content_status s));
          rows1 = update_where p1
            (\<lambda>s. s\<lparr>content_status := ''skipped'', updated_at := now\<rparr>) (stories db0);
          skipped_count = length (filter p1 (stories db0));
          p2 = (\<lambda>s. content_status s = ''fetching'' \<and> content_attempts s < max_attempts);
          rows2 = update_where p2
            (\<lambda>s. s\<lparr>content_status := ''retry'', updated_at := now\<rparr>) rows1;
          reset_count = length (filter p2 rows1);
          p3 = (\<lambda>s. \<not> terminal (content_status s) \<and> content_attempts s \<ge> max_attempts);
          rows3 = update_where p3
            (\<lambda>s. s\<lparr>content_status := ''failed'', updated_at := now\<rparr>) rows2;
          failed_count = length (filter p3 rows2)
      in (skipped_count + reset_count + failed_count, db0\<lparr>stories := rows3\<rparr>))"

subsection \<open>Read later and dismissed\<close>

text \<open>
  \<open>read_later.story_id\<close> references \<open>stories(id)\<close> and every connection runs
  \<open>PRAGMA foreign_keys = ON\<close>. \<open>INSERT OR IGNORE\<close> skips a row whose primary key is
  already there; its conflict clause does not cover foreign keys, so a row that is
  inserted and has no parent fails the statement with \<open>IntegrityError\<close>. The id comes
  from the path of the route and is bound first.
\<close>

definition add_read_later :: "int \<Rightarrow> timestamp \<Rightarrow> db \<Rightarrow> py_error + db" where
  "add_read_later sid now db0 =
     (case bind_error [PInt sid] of
        Some e \<Rightarrow> Inl e
      | None \<Rightarrow>
          (if sid \<in> set (map fst (read_later db0)) then Inr db0
           else if \<not> has_story db0 sid then Inl IntegrityError
           else Inr (db0\<lparr>read_later := read_later db0 @ [(sid, now)]\<rparr>)))"

definition remove_read_later :: "int \<Rightarrow> db \<Rightarrow> py_error + db" where
  "remove_read_later sid db0 =
     (case bind_error [PInt sid] of
        Some e \<Rightarrow> Inl e
      | None \<Rightarrow> Inr (db0\<lparr>read_later := filter (\<lambda>r. fst r \<noteq> sid) (read_later db0)\<rparr>))"

text \<open>\<open>dismissed.story_id\<close> is a primary key with no reference to \<open>stories\<close>.\<close>

definition dismiss_story :: "int \<Rightarrow> timestamp \<Rightarrow> db \<Rightarrow> py_error + db" where
  "dismiss_story sid now db0 =
     (case bind_error [PInt sid] of
        Some e \<Rightarrow> Inl e
      | None \<Rightarrow>
          (if sid \<in> set (map fst (dismissed db0)) then Inr db0
           else Inr (db0\<lparr>dismissed := dismissed db0 @ [(sid, now)]\<rparr>)))"

definition undismiss_story :: "int \<Rightarrow> db \<Rightarrow> py_error + db" where
  "undismiss_story sid db0 =
     (case bind_error [PInt sid] of
        Some e \<Rightarrow> Inl e
      | None \<Rightarrow> Inr (db0\<lparr>dismissed := filter (\<lambda>r. fst r \<noteq> sid) (dismissed db0)\<rparr>))"

definition clear_dismissed :: "db \<Rightarrow> db" where
  "clear_dismissed db0 = db0\<lparr>dismissed := []\<rparr>"

text \<open>
  The two routes \<open>POST /api/readlater/{id}\<close> and \<open>POST /api/dismiss/{id}\<close> take any
  integer as id, call the store and return \<open>{"ok": True}\<close>; they catch nothing, so an
  exception of the store leaves the route and the framework answers 500.
\<close>

definition api_add_read_later :: "int \<Rightarrow> timestamp \<Rightarrow> db \<Rightarrow> nat \<times> db" where
  "api_add_read_later sid now db0 =
     (case add_read_later sid now db0 of Inl e \<Rightarrow> (500, db0) | Inr db1 \<Rightarrow> (200, db1))"

definition api_dismiss_story :: "int \<Rightarrow> timestamp \<Rightarrow> db \<Rightarrow> nat \<times> db" where
  "api_dismiss_story sid now db0 =
     (case dismiss_story sid now db0 of Inl e \<Rightarrow> (500, db0) | Inr db1 \<Rightarrow> (200, db1))"

subsection \<open>Retention\<close>

text \<open>
  \<open>cleanup_stories\<close> up to its deletion of old cache rows. The roll-up of the usage log
  that follows in the source reads and writes \<open>usage_log\<close> and \<open>usage_summary\<close> only,
  and is not part of the model. The result is the two counts and the new store.
\<close>

definition cleanup_stories :: "int \<Rightarrow> int \<Rightarrow> int \<Rightarrow> timestamp \<Rightarrow> db \<Rightarrow> (nat \<times> nat) \<times> db" where
  "cleanup_stories dismissed_hours max_age_days content_cache_days now db0 =
     (let dismissed_cutoff = now - dismissed_hours * 3600;
          age_cutoff = now - max_age_days * 24 * 3600;
          cache_cutoff = now - content_cache_days * 24 * 3600;
          dismissed_ids = map story_id
            (filter (\<lambda>s. list_ex (\<lambda>r. fst r = story_id s \<and> snd r < dismissed_cutoff)
                            (dismissed db0)) (stories db0));
          old_ids = map story_id
            (filter (\<lambda>s. time s < age_cutoff \<and>
                          story_id s \<notin> set (map fst (read_later db0)) \<and>
                          story_id s \<notin> set (map fst (dismissed db0))) (stories db0));
          all_ids_to_delete = dismissed_ids @ old_ids;
          db1 = (if all_ids_to_delete \<noteq> [] then
                   db0\<lparr>history := filter (\<lambda>r. fst r \<notin> set all_ids_to_delete) (history db0),
                       read_later := filter (\<lambda>r. fst r \<notin> set all_ids_to_delete) (read_later db0),
                       dismissed := filter (\<lambda>r. fst r \<notin> set all_ids_to_delete) (dismissed db0),
                       stories := filter (\<lambda>s. story_id s \<notin> set all_ids_to_delete) (stories db0)\<rparr>
                 else db0);
          marker_cutoff = now - 60 * 24 * 3600;
          db2 = db1\<lparr>dismissed := filter (\<lambda>r. \<not> snd r < marker_cutoff) (dismissed db1)\<rparr>;
          db3 = db2\<lparr>fetched_urls := filter (\<lambda>c. \<not> c_fetched_at c < cache_cutoff) (fetched_urls db2)\<rparr>
      in ((length dismissed_ids, length old_ids), db3))"

subsection \<open>URL cache, usage log and the worker\<close>

definition get_cached_content :: "db \<Rightarrow> pystr option \<Rightarrow> cache_row option" where
  "get_cached_content db0 u =
     (case filter (\<lambda>c. u \<noteq> None \<and> c_url c = u) (fetched_urls db0) of
        [] \<Rightarrow> None
      | c # rest \<Rightarrow> Some c)"

text \<open>
  \<open>INSERT OR REPLACE\<close>: the row with the same key goes, the new row is added. A
  \<open>NULL\<close> key equals no key, in the lookup and in the replacement alike. The content is
  the text of the renderer and is bound as it came.
\<close>

definition cache_content ::
  "pystr option \<Rightarrow> pystr option \<Rightarrow> string option \<Rightarrow> real \<Rightarrow> timestamp \<Rightarrow> db \<Rightarrow> py_error + db" where
  "cache_content u c source ms now db0 =
     (case bind_error [PText u, PText c] of
        Some e \<Rightarrow> Inl e
      | None \<Rightarrow>
          Inr (db0\<lparr>fetched_urls := filter (\<lambda>r. \<not> (u \<noteq> None \<and> c_url r = u)) (fetched_urls db0) @
                 [\<lparr>c_url = u, c_content = c, c_source = source, c_browser_ms = ms,
                   c_fetched_at = now\<rparr>]\<rparr>))"

definition log_usage ::
  "int \<Rightarrow> pystr option \<Rightarrow> real \<Rightarrow> string option \<Rightarrow> timestamp \<Rightarrow> db \<Rightarrow> db" where
  "log_usage sid u ms source now db0 =
     db0\<lparr>usage_log := usage_log db0 @
       [\<lparr>u_story_id = sid, u_url = u, u_browser_ms = ms, u_source = source,
         u_created_at = now\<rparr>]\<rparr>"

text \<open>What the renderer call returns; the call itself is an argument of the worker.\<close>

record fetch_result =
  fr_content :: "pystr option"
  fr_status :: string
  fr_source :: string
  fr_browser_ms :: real
  fr_error :: "pystr option"

datatype outcome = Idle | Cached | Done | Blocked | Failed | Retried

text \<open>
  The \<open>except Exception\<close> branch of the worker: a job at the attempt limit is marked
  failed with empty content, any other job goes back to the queue; an exception in the
  branch itself is dropped.
\<close>

definition on_exception :: "codec \<Rightarrow> int \<Rightarrow> int \<Rightarrow> timestamp \<Rightarrow> db \<Rightarrow> outcome \<times> db" where
  "on_exception K sid attempts now db0 =
     (if attempts \<ge> MAX_RETRIES then
        (Failed, store_after db0 (complete_content_job K sid (Some []) ''failed'' None 0 now db0))
      else (Retried, retry_content_job sid now db0))"

text \<open>
  One pass of the loop of \<open>content_worker\<close>, from the claim to the end of the
  finalization, with both global gates open. The sleeps, the log lines, the idle cleanup
  of worker 1 and the writes of the rate-limit gate are left out: they do not touch the
  store. Every store call commits by itself, so an exception keeps what the calls before
  it wrote.
\<close>

definition content_worker_pass ::
  "codec \<Rightarrow> (pystr option \<Rightarrow> fetch_result) \<Rightarrow> timestamp \<Rightarrow> db \<Rightarrow> outcome \<times> db" where
  "content_worker_pass K fetch_content now db0 =
     (case claim_next_content_job MAX_RETRIES now db0 of
        (None, db1) \<Rightarrow> (Idle, db1)
      | (Some j, db1) \<Rightarrow>
          (let sid = job_id j; u = job_url j; attempts = job_attempts j in
           case get_cached_content db1 u of
             Some cached \<Rightarrow>
               (case complete_content_job K sid (c_content cached) ''done''
                       (c_source cached) (c_browser_ms cached) now db1 of
                  Inl e \<Rightarrow> on_exception K sid attempts now db1
                | Inr db2 \<Rightarrow> (Cached, db2))
           | None \<Rightarrow>
               (let result = fetch_content u in
                if fr_status result = ''done'' then
                  (case cache_content u (fr_content result) (Some (fr_source result))
                          (fr_browser_ms result) now db1 of
                     Inl e \<Rightarrow> on_exception K sid attempts now db1
                   | Inr db2 \<Rightarrow>
                       (case complete_content_job K sid (fr_content result) ''done''
                               (Some (fr_source result)) (fr_browser_ms result) now db2 of
                          Inl e \<Rightarrow> on_exception K sid attempts now db2
                        | Inr db3 \<Rightarrow>
                            (Done, log_usage sid u (fr_browser_ms result)
                                     (Some (fr_source result)) now db3)))
                else if fr_status result = ''blocked'' then
                  (if attempts \<ge> MAX_RETRIES then
                     (case complete_content_job K sid
                             (if truthy (fr_content result) then fr_content result
                              else Some [])
                             ''blocked'' (Some (fr_source result))
                             (fr_browser_ms result) now db1 of
                        Inl e \<Rightarrow> on_exception K sid attempts now db1
                      | Inr db2 \<Rightarrow>
                          (Blocked,
                           if fr_browser_ms result > 0
                           then log_usage sid u (fr_browser_ms result)
                                  (Some (fr_source result)) now db2
                           else db2))
                   else (Retried, retry_content_job sid now db1))
                else if fr_status result = ''timeout'' then
                  (if attempts \<ge> MAX_RETRIES then
                     (case complete_content_job K sid (Some []) ''failed''
                             (Some (fr_source result)) 0 now db1 of
                        Inl e \<Rightarrow> on_exception K sid attempts now db1
                      | Inr db2 \<Rightarrow> (Failed, db2))
                   else (Retried, retry_content_job sid now db1))
                else if fr_status result = ''quota_exceeded'' then
                  (Retried, retry_content_job sid now db1)
                else if fr_status result = ''rate_limited'' then
                  (Retried, retry_content_job sid now db1)
                else
                  (if attempts \<ge> MAX_RETRIES then
                     (case complete_content_job K sid (Some []) ''failed''
                             (Some (fr_source result)) 0 now db1 of
                        Inl e \<Rightarrow> on_exception K sid attempts now db1
                      | Inr db2 \<Rightarrow> (Failed, db2))
                   else (Retried, retry_content_job sid now db1)))))"

text \<open>
  The text that the cache holds is text that \<open>sqlite3\<close> has bound, so UTF-8 encodes it.
\<close>

definition cache_ok :: "db \<Rightarrow> bool" where
  "cache_ok d =
     list_all (\<lambda>c. case c_content c of None \<Rightarrow> True | Some s \<Rightarrow> encodable s)
       (fetched_urls d)"

subsection \<open>The story listing\<close>

text \<open>A row of the \<open>scored\<close> subquery, and the dictionary built from it.\<close>

record scored =
  s_id :: int
  s_title :: pystr
  s_url :: "pystr option"
  s_domain :: "pystr option"
  s_by :: "pystr option"
  s_time :: int
  s_score :: int
  s_descendants :: int
  s_content_status :: string
  s_teaser :: "pystr option"
  s_hit_front_page :: int
  s_front_page_rank :: "int option"
  domain_merit :: int
  domain_demerit :: int
  is_read_later :: bool
  is_dismissed :: bool
  is_read :: bool
  is_domain_blocked :: bool

record listed = scored +
  word_merit :: int
  word_demerit :: int
  merit_score :: int
  demerit_score :: int
  net_score :: int

text \<open>
  The left joins: each joined table has the join column as its primary key, so a story
  gives one row. A \<open>NULL\<close> domain matches no row.
\<close>

definition domain_weight :: "(pystr \<times> int) list \<Rightarrow> pystr option \<Rightarrow> int" where
  "domain_weight tab dm =
     (case dm of None \<Rightarrow> 0
      | Some x \<Rightarrow> (case map_of tab x of None \<Rightarrow> 0 | Some w \<Rightarrow> w))"

definition score_row :: "db \<Rightarrow> story \<Rightarrow> scored" where
  "score_row d s =
     \<lparr> s_id = story_id s, s_title = title s, s_url = url s, s_domain = domain s,
       s_by = by_user s, s_time = time s, s_score = score s,
       s_descendants = descendants s, s_content_status = content_status s,
       s_teaser = teaser s, s_hit_front_page = hit_front_page s,
       s_front_page_rank = front_page_rank s,
       domain_merit = domain_weight (merit_domains d) (domain s),
       domain_demerit = domain_weight (demerit_domains d) (domain s),
       is_read_later = (story_id s \<in> set (map fst (read_later d))),
       is_dismissed = (story_id s \<in> set (map fst (dismissed d))),
       is_read = (story_id s \<in> set (map fst (history d))),
       is_domain_blocked = (case domain s of None \<Rightarrow> False
                            | Some x \<Rightarrow> x \<in> set (blocked_domains d)) \<rparr>"

text \<open>The flag clauses of the \<open>WHERE\<close>, and the rows that pass them.\<close>

definition flags_ok :: "bool \<Rightarrow> bool \<Rightarrow> bool \<Rightarrow> scored \<Rightarrow> bool" where
  "flags_ok dismissed_only include_blocked include_read_later r =
     ((if dismissed_only then is_dismissed r else \<not> is_dismissed r) \<and>
      (include_blocked \<or> \<not> is_domain_blocked r) \<and>
      (include_read_later \<or> \<not> is_read_later r))"

definition flagged_rows :: "db \<Rightarrow> bool \<Rightarrow> bool \<Rightarrow> bool \<Rightarrow> scored list" where
  "flagged_rows d dismissed_only include_blocked include_read_later =
     filter (flags_ok dismissed_only include_blocked include_read_later)
       (map (score_row d) (stories d))"

text \<open>The keyset clause, added when both parts of the cursor are there.\<close>

definition cursor_ok :: "string \<Rightarrow> int option \<Rightarrow> int option \<Rightarrow> scored \<Rightarrow> bool" where
  "cursor_ok sort_dir ct ci r =
     (case (ct, ci) of
        (Some t, Some i) \<Rightarrow>
          (if sort_dir = ''newest'' then s_time r < t \<or> (s_time r = t \<and> s_id r < i)
           else s_time r > t \<or> (s_time r = t \<and> s_id r > i))
      | _ \<Rightarrow> True)"

text \<open>\<open>ORDER BY time DESC, id DESC\<close> for \<open>newest\<close>, ascending otherwise.\<close>

definition order_key :: "string \<Rightarrow> scored \<Rightarrow> int \<times> int" where
  "order_key sort_dir r =
     (if sort_dir = ''newest'' then (- s_time r, - s_id r) else (s_time r, s_id r))"

text \<open>\<open>LIMIT n\<close>: a negative \<open>n\<close> is no limit in SQLite.\<close>

definition sql_limit_rows :: "int \<Rightarrow> 'a list \<Rightarrow> 'a list" where
  "sql_limit_rows n xs = (if n < 0 then xs else take (nat n) xs)"

text \<open>The rows that pass the flags and lie beyond a cursor, in the order of the query.\<close>

definition rows_beyond :: "scored list \<Rightarrow> string \<Rightarrow> int option \<Rightarrow> int option \<Rightarrow> scored list" where
  "rows_beyond base sort_dir ct ci =
     sort_key (order_key sort_dir) (filter (cursor_ok sort_dir ct ci) base)"

definition query_batch ::
  "scored list \<Rightarrow> string \<Rightarrow> int \<Rightarrow> int option \<Rightarrow> int option \<Rightarrow> scored list" where
  "query_batch base sort_dir sql_limit ct ci =
     sql_limit_rows sql_limit (rows_beyond base sort_dir ct ci)"

text \<open>
  The dictionaries of the words: a later row of the table with the same lowercased
  word overwrites the weight, at the place of the first.
\<close>

fun dict_put :: "pystr \<Rightarrow> int \<Rightarrow> (pystr \<times> int) list \<Rightarrow> (pystr \<times> int) list" where
  "dict_put k v [] = [(k, v)]"
| "dict_put k v (e # es) = (if fst e = k then (k, v) # es else e # dict_put k v es)"

definition word_dict :: "lower_fn \<Rightarrow> (pystr \<times> int) list \<Rightarrow> (pystr \<times> int) list" where
  "word_dict str_lower tab = fold (\<lambda>e acc. dict_put (str_lower (fst e)) (snd e) acc) tab []"

definition word_sum :: "(pystr \<times> int) list \<Rightarrow> pystr \<Rightarrow> int" where
  "word_sum dict title_lower =
     sum_list (map snd (filter (\<lambda>e. contains (fst e) title_lower) dict))"

definition title_blocked :: "lower_fn \<Rightarrow> bool \<Rightarrow> pystr list \<Rightarrow> scored \<Rightarrow> bool" where
  "title_blocked str_lower include_blocked bwords r =
     (\<not> include_blocked \<and> list_ex (\<lambda>bw. contains bw (str_lower (s_title r))) bwords)"

definition url_key :: "'a scored_scheme \<Rightarrow> pystr" where
  "url_key r = (if truthy (s_url r) then the (s_url r) else S ''hn:'' @ str_int (s_id r))"

definition annotate ::
  "lower_fn \<Rightarrow> (pystr \<times> int) list \<Rightarrow> (pystr \<times> int) list \<Rightarrow> scored \<Rightarrow> listed" where
  "annotate str_lower mw dw r =
     (let title_lower = str_lower (s_title r);
          wm = word_sum mw title_lower;
          wd = word_sum dw title_lower
      in scored.extend r
           \<lparr> word_merit = wm, word_demerit = wd,
             merit_score = domain_merit r + wm,
             demerit_score = domain_demerit r + wd,
             net_score = (domain_merit r + wm) - (domain_demerit r + wd) \<rparr>)"

text \<open>
  The \<open>for\<close> loop over a batch: a row is skipped for a blocked word in its title or
  for a key seen before; the loop breaks once \<open>limit\<close> stories are collected.
\<close>

fun process_rows ::
  "lower_fn \<Rightarrow> int \<Rightarrow> bool \<Rightarrow> pystr list \<Rightarrow> (pystr \<times> int) list \<Rightarrow> (pystr \<times> int) list \<Rightarrow>
   scored list \<Rightarrow> listed list \<times> pystr list \<Rightarrow> listed list \<times> pystr list" where
  "process_rows L limit ib bwords mw dw [] acc = acc"
| "process_rows L limit ib bwords mw dw (row # rows) (stories_acc, seen_urls) =
     (if title_blocked L ib bwords row then
        process_rows L limit ib bwords mw dw rows (stories_acc, seen_urls)
      else if url_key row \<in> set seen_urls then
        process_rows L limit ib bwords mw dw rows (stories_acc, seen_urls)
      else
        (let seen' = url_key row # seen_urls;
             stories' = stories_acc @ [annotate L mw dw row]
         in if int (length stories') \<ge> limit then (stories', seen')
            else process_rows L limit ib bwords mw dw rows (stories', seen')))"

text \<open>
  The \<open>while\<close> loop: it fetches the next batch of \<open>3 * limit\<close> rows after the
  cursor, stops on an empty batch, and otherwise processes the batch and moves the
  cursor to the last row of the batch. Every batch moves the cursor forward, so the
  loop ends: fewer rows of the table lie beyond the new cursor.
\<close>

lemma set_sql_limit_rows: "set (sql_limit_rows n xs) \<subseteq> set xs"
  by (auto simp add: sql_limit_rows_def dest: in_set_takeD)

lemma query_batch_subset:
  "set (query_batch base sort_dir n ct ci) \<subseteq> {r \<in> set base. cursor_ok sort_dir ct ci r}"
  using set_sql_limit_rows [of n "rows_beyond base sort_dir ct ci"]
  by (auto simp add: query_batch_def rows_beyond_def)

lemma cursor_ok_trans:
  assumes "cursor_ok sort_dir ct ci r0"
    and "cursor_ok sort_dir (Some (s_time r0)) (Some (s_id r0)) r"
  shows "cursor_ok sort_dir ct ci r"
  using assms by (auto simp add: cursor_ok_def split: option.splits if_splits)

lemma cursor_ok_irrefl: "\<not> cursor_ok sort_dir (Some (s_time r)) (Some (s_id r)) r"
  by (simp add: cursor_ok_def)

lemma cursor_advance:
  assumes "r0 \<in> set base" and "cursor_ok sort_dir ct ci r0"
  shows "length (filter (cursor_ok sort_dir (Some (s_time r0)) (Some (s_id r0))) base)
         < length (filter (cursor_ok sort_dir ct ci) base)"
proof -
  let ?new = "cursor_ok sort_dir (Some (s_time r0)) (Some (s_id r0))"
  let ?old = "cursor_ok sort_dir ct ci"
  have "filter ?new base = filter ?new (filter ?old base)"
    using cursor_ok_trans [OF assms(2)] by (auto intro: filter_cong)
  moreover have "length (filter ?new (filter ?old base)) < length (filter ?old base)"
    using assms cursor_ok_irrefl by (intro length_filter_less [of r0]) auto
  ultimately show ?thesis by simp
qed

lemma query_batch_advance:
  assumes "query_batch base sort_dir n ct ci \<noteq> []"
  shows "length (filter (cursor_ok sort_dir
                   (Some (s_time (last (query_batch base sort_dir n ct ci))))
                   (Some (s_id (last (query_batch base sort_dir n ct ci))))) base)
         < length (filter (cursor_ok sort_dir ct ci) base)"
proof -
  from assms have "last (query_batch base sort_dir n ct ci) \<in> set (query_batch base sort_dir n ct ci)"
    by simp
  with query_batch_subset [of base sort_dir n ct ci]
  have "last (query_batch base sort_dir n ct ci) \<in> set base"
    "cursor_ok sort_dir ct ci (last (query_batch base sort_dir n ct ci))" by auto
  then show ?thesis by (rule cursor_advance)
qed

function fetch_loop ::
  "lower_fn \<Rightarrow> scored list \<Rightarrow> string \<Rightarrow> int \<Rightarrow> bool \<Rightarrow> pystr list \<Rightarrow> (pystr \<times> int) list \<Rightarrow>
   (pystr \<times> int) list \<Rightarrow> listed list \<times> pystr list \<times> int option \<times> int option \<times> bool \<Rightarrow>
   listed list \<times> pystr list \<times> int option \<times> int option \<times> bool" where
  "fetch_loop L base sort_dir limit ib bwords mw dw
     (stories_acc, seen_urls, ct, ci, has_more_in_db) =
     (if int (length stories_acc) < limit \<and> has_more_in_db then
        (let rows = query_batch base sort_dir (limit * 3) ct ci;
             has_more' = (int (length rows) = limit * 3)
         in if rows = [] then (stories_acc, seen_urls, ct, ci, has_more')
            else (case process_rows L limit ib bwords mw dw rows (stories_acc, seen_urls) of
                    (stories', seen') \<Rightarrow>
                      fetch_loop L base sort_dir limit ib bwords mw dw
                        (stories', seen', Some (s_time (last rows)), Some (s_id (last rows)),
                         has_more')))
      else (stories_acc, seen_urls, ct, ci, has_more_in_db))"
  by pat_completeness auto
termination
  apply (relation "measure (\<lambda>(L, base, sort_dir, limit, ib, bwords, mw, dw, (st, seen, ct, ci, hm)).
         length (filter (cursor_ok sort_dir ct ci) base))")
   apply simp
  apply (simp add: query_batch_advance)
  done

text \<open>The equation of the loop is unfolded by hand, one pass at a time.\<close>

declare fetch_loop.simps [simp del]

text \<open>
  What holds of the state of the loop before every pass, for the cursor \<open>c0t\<close>,
  \<open>c0i\<close> of the call, and what holds of the state the loop ends in.
\<close>

definition loop_inv ::
  "lower_fn \<Rightarrow> scored list \<Rightarrow> string \<Rightarrow> int \<Rightarrow> bool \<Rightarrow> pystr list \<Rightarrow> int option \<Rightarrow> int option \<Rightarrow>
   listed list \<times> pystr list \<times> int option \<times> int option \<times> bool \<Rightarrow> bool" where
  "loop_inv L base sort_dir limit ib bwords c0t c0i s =
     (case s of (st, seen, ct, ci, hm) \<Rightarrow>
        (int (length st) \<le> limit \<or> st = []) \<and>
        set seen = url_key ` set st \<and>
        (\<forall>r. cursor_ok sort_dir ct ci r \<longrightarrow> cursor_ok sort_dir c0t c0i r) \<and>
        (int (length st) < limit \<longrightarrow>
           (\<forall>r \<in> set base. cursor_ok sort_dir c0t c0i r \<and> \<not> cursor_ok sort_dir ct ci r \<and>
                            \<not> title_blocked L ib bwords r \<longrightarrow> url_key r \<in> set seen)) \<and>
        (\<not> hm \<longrightarrow> (\<forall>r \<in> set base. \<not> cursor_ok sort_dir ct ci r)))"

definition loop_post ::
  "lower_fn \<Rightarrow> scored list \<Rightarrow> string \<Rightarrow> int \<Rightarrow> bool \<Rightarrow> pystr list \<Rightarrow> int option \<Rightarrow> int option \<Rightarrow>
   listed list \<times> pystr list \<times> int option \<times> int option \<times> bool \<Rightarrow> bool" where
  "loop_post L base sort_dir limit ib bwords c0t c0i s =
     (case s of (st, seen, ct, ci, hm) \<Rightarrow>
        (int (length st) \<le> limit \<or> st = []) \<and>
        set seen = url_key ` set st \<and>
        (int (length st) < limit \<longrightarrow>
           \<not> hm \<and>
           (\<forall>r \<in> set base. cursor_ok sort_dir c0t c0i r \<and> \<not> title_blocked L ib bwords r \<longrightarrow>
                            url_key r \<in> set seen)))"

text \<open>
  The result: the page \<open>stories[:limit]\<close>, \<open>has_more\<close> and \<open>next_cursor\<close>. The
  index \<open>limit - 1\<close> is read only when more than \<open>limit\<close> stories were collected.
\<close>

definition cursor_str :: "listed \<Rightarrow> pystr" where
  "cursor_str s = str_int (s_time s) @ S '':'' @ str_int (s_id s)"

definition py_prefix :: "int \<Rightarrow> 'a list \<Rightarrow> 'a list" where
  "py_prefix n xs = (if n \<ge> 0 then take (nat n) xs else take (length xs - nat (- n)) xs)"

record page =
  p_stories :: "listed list"
  has_more :: bool
  next_cursor :: "pystr option"

text \<open>
  The loop runs its first query when \<open>0 < limit\<close>. That query binds the cursor of the
  caller, which the route parses from any \<open><int>:<int>\<close>, and carries \<open>3 * limit\<close> as
  its \<open>LIMIT\<close>: an integer outside 64 bits fails the binding with \<open>OverflowError\<close>,
  and a \<open>LIMIT\<close> outside 64 bits fails the query with \<open>IntegrityError\<close> (datatype
  mismatch). Every later query binds the time and the id of a stored row, and the same
  \<open>LIMIT\<close>.
\<close>

definition first_query_error :: "int \<Rightarrow> int option \<Rightarrow> int option \<Rightarrow> py_error option" where
  "first_query_error limit ct ci =
     (case (case (ct, ci) of
              (Some t, Some i) \<Rightarrow> bind_error [PInt t, PInt t, PInt i]
            | _ \<Rightarrow> None) of
        Some e \<Rightarrow> Some e
      | None \<Rightarrow> (if in_int64 (limit * 3) then None else Some IntegrityError))"

definition get_stories ::
  "lower_fn \<Rightarrow> db \<Rightarrow> bool \<Rightarrow> bool \<Rightarrow> bool \<Rightarrow> int \<Rightarrow> int option \<Rightarrow> int option \<Rightarrow> string \<Rightarrow>
   py_error + page" where
  "get_stories L d dismissed_only include_blocked include_read_later limit cursor_time
     cursor_id sort_dir =
     (let mw = word_dict L (merit_words d);
          dw = word_dict L (demerit_words d);
          bwords = map L (blocked_words d);
          base = flagged_rows d dismissed_only include_blocked include_read_later
      in case (if 0 < limit then first_query_error limit cursor_time cursor_id else None) of
           Some e \<Rightarrow> Inl e
         | None \<Rightarrow>
             (case fetch_loop L base sort_dir limit include_blocked bwords mw dw
                     ([], [], cursor_time, cursor_id, True) of
                (stories_acc, seen_urls, ct, ci, has_more_in_db) \<Rightarrow>
                  Inr \<lparr> p_stories = py_prefix limit stories_acc,
                        has_more = (int (length stories_acc) > limit \<or> has_more_in_db),
                        next_cursor =
                          (if stories_acc \<noteq> [] \<and>
                              (has_more_in_db \<or> int (length stories_acc) \<ge> limit)
                           then Some (cursor_str (if int (length stories_acc) \<le> limit
                                                  then last stories_acc
                                                  else stories_acc ! nat (limit - 1)))
                           else None) \<rparr>))"

subsection \<open>Concrete stores\<close>

text \<open>The store after \<open>init\<close> on a new file, and a row with the columns that vary.\<close>

definition empty_db :: db where
  "empty_db =
     \<lparr> stories = [], fetched_urls = [], usage_log = [], read_later = [], dismissed = [],
       history = [], blocked_domains = [], blocked_words = [], merit_words = [],
       demerit_words = [], merit_domains = [], demerit_domains = [] \<rparr>"

definition ex_story :: "int \<Rightarrow> string option \<Rightarrow> int \<Rightarrow> string \<Rightarrow> int \<Rightarrow> story" where
  "ex_story i u t st a =
     \<lparr> story_id = i, title = S ''Show HN'', url = map_option S u, domain = None,
       by_user = None, time = t, score = 0, descendants = 0, content = None,
       content_status = st, content_attempts = a, content_source = None, browser_ms = 0,
       hit_front_page = 0, front_page_rank = None, teaser = None, created_at = 0,
       updated_at = 0 \<rparr>"

text \<open>A queue of five: only stories 1, 2 and 3 can be claimed, and 3 is the next.\<close>

definition queue_db :: db where
  "queue_db = empty_db\<lparr>stories :=
     [ex_story 1 (Some ''http://a.example/'') 50 ''retry'' 1,
      ex_story 2 (Some ''http://b.example/'') 70 ''pending'' 0,
      ex_story 3 (Some ''http://c.example/'') 60 ''pending'' 0,
      ex_story 4 None 10 ''pending'' 0,
      ex_story 5 (Some ''http://e.example/'') 5 ''done'' 3]\<rparr>"

text \<open>The invariant of the attempt counter, for the limit the workers use.\<close>

definition attempts_bounded :: "db \<Rightarrow> bool" where
  "attempts_bounded d = list_all (\<lambda>s. content_attempts s \<le> MAX_RETRIES) (stories d)"

text \<open>Every row of \<open>read_later\<close> has its story: the foreign key of the schema.\<close>

definition fk_ok :: "db \<Rightarrow> bool" where
  "fk_ok d = list_all (\<lambda>r. has_story d (fst r)) (read_later d)"

text \<open>A story dismissed 100000 seconds (more than 24 hours) before the cleanup.\<close>

definition dismissed_db :: db where
  "dismissed_db = empty_db\<lparr>stories := [ex_story 1 (Some ''http://a.example/'') 1000000 ''done'' 1],
                           dismissed := [(1, 1000000)]\<rparr>"

text \<open>A pending story whose URL another story has fetched before, for 1234 ms.\<close>

definition cached_db :: db where
  "cached_db = empty_db\<lparr>stories := [ex_story 1 (Some ''http://a.example/'') 50 ''pending'' 0],
     fetched_urls := [\<lparr>c_url = Some (S ''http://a.example/''), c_content = Some (S ''text''),
                       c_source = Some ''cloudflare'', c_browser_ms = 1234,
                       c_fetched_at = 40\<rparr>]\<rparr>"

definition no_fetch :: "pystr option \<Rightarrow> fetch_result" where
  "no_fetch u = \<lparr>fr_content = None, fr_status = ''failed'', fr_source = ''cloudflare'',
                 fr_browser_ms = 0, fr_error = None\<rparr>"

text \<open>A self post, first seen without its text, then with it.\<close>

definition ask_dict :: "string option \<Rightarrow> int \<Rightarrow> story_dict" where
  "ask_dict txt sc =
     \<lparr>d_id = 7, d_title = S ''Ask HN'', d_url = None, d_text = map_option S txt,
       d_domain = None, d_by = Some (S ''pg''), d_time = 100, d_score = sc,
       d_descendants = 0\<rparr>"

text \<open>A story that a worker has claimed, and the self post after its first ingestion.\<close>

definition fetching_db :: db where
  "fetching_db = empty_db\<lparr>stories := [ex_story 1 (Some ''http://a.example/'') 50 ''fetching'' 1]\<rparr>"

definition ask_db :: db where
  "ask_db = store_after empty_db (upsert_story toy_codec 1 (ask_dict None 1) empty_db)"

text \<open>
  Three stories, the two older ones with a blocked word in the title.
\<close>

definition spam_db :: db where
  "spam_db = empty_db\<lparr>stories :=
     [(ex_story 1 (Some ''http://a.example/'') 10 ''pending'' 0)\<lparr>title := S ''Buy SPAM now''\<rparr>,
      (ex_story 2 (Some ''http://b.example/'') 20 ''pending'' 0)\<lparr>title := S ''More spam''\<rparr>,
      ex_story 3 (Some ''http://c.example/'') 30 ''pending'' 0],
     blocked_words := [S ''spam'']\<rparr>"

section \<open>Properties of compression\<close>

lemma startswith_prefix: "startswith (p @ s) p"
  by (simp add: startswith_def)

lemma compress_encodable:
  assumes ok: "codec_ok K" and ne: "x \<noteq> []" and en: "encodable x"
  shows "\<exists>z. compress_content K x = Inr z \<and> decompress_content K z = x"
proof -
  from ok en obtain raw where raw: "utf8_encode K x = Some raw"
    by (auto simp add: codec_ok_def)
  let ?payload = "b64encode K (zlib_compress K raw)"
  have c: "compress_content K x = Inr (COMPRESS_PREFIX @ ?payload)"
    using ne raw by (simp add: compress_content_def)
  have nonempty: "COMPRESS_PREFIX \<noteq> []"
    by (simp add: COMPRESS_PREFIX_def S_def)
  have b: "b64decode K ?payload = Some (zlib_compress K raw)"
    using ok by (simp add: codec_ok_def)
  have z: "zlib_decompress K (zlib_compress K raw) = Some raw"
    using ok by (simp add: codec_ok_def)
  have u: "utf8_decode K raw = Some x"
    using ok raw by (simp add: codec_ok_def)
  have "decompress_content K (COMPRESS_PREFIX @ ?payload) = x"
    unfolding decompress_content_def
    using nonempty b z u by (simp add: startswith_prefix)
  with c show ?thesis by simp
qed

lemma compress_not_encodable:
  assumes ok: "codec_ok K" and ne: "x \<noteq> []" and en: "\<not> encodable x"
  shows "compress_content K x = Inl UnicodeEncodeError"
proof -
  from ok en have "utf8_encode K x = None" by (simp add: codec_ok_def)
  with ne show ?thesis by (simp add: compress_content_def)
qed

lemma decompress_plain:
  "\<not> startswith x COMPRESS_PREFIX \<Longrightarrow> decompress_content K x = x"
  by (simp add: decompress_content_def)

lemma three_bytes_value:
  assumes "0 \<le> c" "c < 1114112"
  shows "c div 65536 mod 256 * 65536 + c div 256 mod 256 * 256 + c mod 256 = (c::int)"
    and "c div 65536 * 65536 + c div 256 mod 256 * 256 + c mod 256 = c"
proof -
  define q where "q = c div 65536"
  define r where "r = c div 256"
  have a: "q = r div 256"
    unfolding q_def r_def using zdiv_zmult2_eq [of 256 c 256] by simp
  from assms have "q < 17" "0 \<le> q" unfolding q_def by simp_all
  then have b: "q mod 256 = q" by simp
  have c1: "c = r * 256 + c mod 256" unfolding r_def by simp
  have "r = q * 256 + r mod 256" unfolding a by simp
  with c1 have "c = (q * 256 + r mod 256) * 256 + c mod 256" by simp
  then have "c = q * 65536 + r mod 256 * 256 + c mod 256" by (simp add: algebra_simps)
  with b show "c div 65536 mod 256 * 65536 + c div 256 mod 256 * 256 + c mod 256 = c"
    and "c div 65536 * 65536 + c div 256 mod 256 * 256 + c mod 256 = c"
    unfolding q_def [symmetric] r_def [symmetric] by simp_all
qed

lemma from_three_bytes_inverse:
  "encodable s \<Longrightarrow> from_three_bytes (concat (map three_bytes s)) = Some s"
proof (induction s)
  case Nil
  show ?case by simp
next
  case (Cons c s)
  then have c: "0 \<le> c" "c < 1114112" and s: "encodable s" by (simp_all add: encodable_def)
  from Cons.IH [OF s] three_bytes_value [OF c] show ?case by (simp add: three_bytes_def)
qed

lemma undouble_double: "undouble (concat (map (\<lambda>c. [of_char c, of_char c]) b)) = Some b"
  by (induction b) simp_all

lemma toy_codec_ok: "codec_ok toy_codec"
  by (simp add: codec_ok_def toy_codec_def undouble_double from_three_bytes_inverse)

text \<open>
  C8 (as amended). Compression round trip, with library codecs under their contract:
  for every non-empty string \<open>x\<close> that UTF-8 can encode, \<open>compress_content\<close> returns and
  decompressing its result gives \<open>x\<close> back; on a non-empty string that UTF-8 cannot
  encode (one with a surrogate) \<open>compress_content\<close> raises \<open>UnicodeEncodeError\<close>; and
  every string that does not start with the prefix \<open>z:\<close> is decompressed to itself.
\<close>

theorem compression_round_trip:
  assumes "codec_ok K"
  shows "(x \<noteq> [] \<and> encodable x \<longrightarrow>
            (\<exists>z. compress_content K x = Inr z \<and> decompress_content K z = x)) \<and>
         (x \<noteq> [] \<and> \<not> encodable x \<longrightarrow> compress_content K x = Inl UnicodeEncodeError) \<and>
         (\<not> startswith y COMPRESS_PREFIX \<longrightarrow> decompress_content K y = y)"
  using assms compress_encodable compress_not_encodable decompress_plain by blast

theorem compression_round_trip_witness:
  "codec_ok toy_codec \<and> S ''ab'' \<noteq> [] \<and> encodable (S ''ab'') \<and>
   (\<exists>z. compress_content toy_codec (S ''ab'') = Inr z \<and>
        decompress_content toy_codec z = S ''ab'') \<and>
   \<not> startswith (S ''plain'') COMPRESS_PREFIX \<and>
   decompress_content toy_codec (S ''plain'') = S ''plain'' \<and>
   [56832] \<noteq> ([] :: pystr) \<and> \<not> encodable [56832] \<and>
   compress_content toy_codec [56832] = Inl UnicodeEncodeError"
proof -
  have ne: "S ''ab'' \<noteq> []" by (simp add: S_def)
  have en: "encodable (S ''ab'')" by code_simp
  have np: "\<not> startswith (S ''plain'') COMPRESS_PREFIX" by code_simp
  have nn: "\<not> encodable [56832]" by code_simp
  from compression_round_trip [OF toy_codec_ok, of "S ''ab''" "S ''plain''"]
    compression_round_trip [OF toy_codec_ok, of "[56832]" "S ''plain''"]
    ne en np nn toy_codec_ok
  show ?thesis by simp
qed

text \<open>
  The claim as stated fails: the one-character string of the surrogate U+D800 is not
  empty, and \<open>compress_content\<close> raises on it, so nothing is there to decompress.
\<close>

theorem compression_round_trip_counterexample:
  "[55296] \<noteq> ([] :: pystr) \<and> compress_content toy_codec [55296] = Inl UnicodeEncodeError"
  by code_simp

section \<open>Properties of blocking detection\<close>

lemma match_here_ci_iff:
  "match_here_ci p s \<longleftrightarrow> length p \<le> length s \<and> list_all2 ci_eq p (take (length p) s)"
  by (induction p s rule: match_here_ci.induct) auto

lemma search_ci_iff: "search_ci p s \<longleftrightarrow> occurs_ci p s"
proof (induction s)
  case Nil
  show ?case by (auto simp add: occurs_ci_def match_here_ci_iff)
next
  case (Cons c cs)
  have "occurs_ci p (c # cs) \<longleftrightarrow> match_here_ci p (c # cs) \<or> occurs_ci p cs"
  proof
    assume "occurs_ci p (c # cs)"
    then obtain i where i: "i + length p \<le> length (c # cs)"
      "list_all2 ci_eq p (take (length p) (drop i (c # cs)))"
      by (auto simp add: occurs_ci_def)
    show "match_here_ci p (c # cs) \<or> occurs_ci p cs"
    proof (cases i)
      case 0
      with i show ?thesis by (simp add: match_here_ci_iff)
    next
      case (Suc j)
      with i have "j + length p \<le> length cs" "list_all2 ci_eq p (take (length p) (drop j cs))"
        by simp_all
      then show ?thesis unfolding occurs_ci_def by blast
    qed
  next
    assume "match_here_ci p (c # cs) \<or> occurs_ci p cs"
    then show "occurs_ci p (c # cs)"
    proof
      assume "match_here_ci p (c # cs)"
      then have "0 + length p \<le> length (c # cs) \<and>
                 list_all2 ci_eq p (take (length p) (drop 0 (c # cs)))"
        by (simp add: match_here_ci_iff)
      then show ?thesis unfolding occurs_ci_def by blast
    next
      assume "occurs_ci p cs"
      then obtain j where "j + length p \<le> length cs"
        "list_all2 ci_eq p (take (length p) (drop j cs))"
        by (auto simp add: occurs_ci_def)
      then have "Suc j + length p \<le> length (c # cs) \<and>
                 list_all2 ci_eq p (take (length p) (drop (Suc j) (c # cs)))"
        by simp
      then show ?thesis unfolding occurs_ci_def by blast
    qed
  qed
  with Cons show ?case by simp
qed

lemma BLOCKING_REGEX_search_iff: "BLOCKING_REGEX_search s \<longleftrightarrow> some_pattern_occurs s"
  by (simp add: BLOCKING_REGEX_search_def some_pattern_occurs_def list_ex_iff search_ci_iff)

lemma no_pattern_in_empty: "\<not> BLOCKING_REGEX_search []"
  by code_simp

text \<open>
  C9 (as amended). Blocking classification: \<open>detect_blocking c\<close> is true exactly when
  the text is shorter than 200 characters and a blocking pattern occurs in it
  case-insensitively, or it has at least 200 and at most 3000 characters and a pattern
  occurs case-insensitively in the lowercased first 2000 characters, that is in
  \<open>c[:2000].lower()\<close>.
\<close>

theorem detect_blocking_classification:
  "detect_blocking str_lower c \<longleftrightarrow>
     (length c < 200 \<and> some_pattern_occurs c) \<or>
     (length c \<ge> 200 \<and> some_pattern_occurs (str_lower (take 2000 c)) \<and> length c \<le> 3000)"
proof (cases "c = []")
  case True
  with no_pattern_in_empty show ?thesis
    by (simp add: detect_blocking_def BLOCKING_REGEX_search_iff)
next
  case False
  then show ?thesis
    by (auto simp add: detect_blocking_def MIN_CONTENT_LENGTH_def BLOCKING_REGEX_search_iff)
qed

theorem detect_blocking_classification_witness:
  "detect_blocking lower_excerpt (S ''Just a Moment...'') \<and>
   length (S ''Just a Moment...'') < 200 \<and>
   some_pattern_occurs (S ''Just a Moment...'') \<and>
   \<not> detect_blocking lower_excerpt (S ''hello'') \<and>
   detect_blocking lower_excerpt (S ''Access Denied'' @ replicate 300 120) \<and>
   length (S ''Access Denied'' @ replicate 300 120) = 313 \<and>
   some_pattern_occurs (lower_excerpt (take 2000 (S ''Access Denied'' @ replicate 300 120)))"
proof -
  have d: "detect_blocking lower_excerpt (S ''Just a Moment...'')"
    by code_simp
  have n: "\<not> detect_blocking lower_excerpt (S ''hello'')"
    by code_simp
  have l: "length (S ''Just a Moment...'') < 200" by (simp add: S_def)
  have d2: "detect_blocking lower_excerpt (S ''Access Denied'' @ replicate 300 120)"
    by code_simp
  have l2: "length (S ''Access Denied'' @ replicate 300 120) = 313" by (simp add: S_def)
  from d detect_blocking_classification [of lower_excerpt "S ''Just a Moment...''"] n l
    d2 detect_blocking_classification [of lower_excerpt "S ''Access Denied'' @ replicate 300 120"]
    l2
  show ?thesis by simp
qed

text \<open>
  The claim as stated fails: the pattern \<open>rate limit\<close> occurs case-insensitively in the
  first 2000 of the 311 characters of the page, whose lowercased text has the combining
  dot after each \<open>i\<close>, and the page is not classified as blocking; the ten characters
  alone are.
\<close>

theorem detect_blocking_classification_counterexample:
  "length rate_limit_page = 311 \<and>
   some_pattern_occurs (take 2000 rate_limit_page) \<and>
   \<not> detect_blocking lower_excerpt rate_limit_page \<and>
   detect_blocking lower_excerpt rate_limit_text"
proof -
  have l: "length rate_limit_page = 311" by code_simp
  have "BLOCKING_REGEX_search (take 2000 rate_limit_page)" by code_simp
  then have o: "some_pattern_occurs (take 2000 rate_limit_page)"
    by (simp only: BLOCKING_REGEX_search_iff)
  have n: "\<not> detect_blocking lower_excerpt rate_limit_page" by code_simp
  have s: "detect_blocking lower_excerpt rate_limit_text" by code_simp
  from l o n s show ?thesis by simp
qed

section \<open>The claim of the next job\<close>

lemma update_where_attempts:
  assumes "\<And>r. P r \<Longrightarrow> content_attempts (f r) \<le> m" "\<forall>s\<in>set rows. content_attempts s \<le> m"
  shows "\<forall>s\<in>set (update_where P f rows). content_attempts s \<le> m"
  using assms by (auto simp add: update_where_def)

lemma set_update_where:
  "set (update_where P f rows) = f ` {r \<in> set rows. P r} \<union> {r \<in> set rows. \<not> P r}"
  by (auto simp add: update_where_def)

lemma next_candidate_None:
  "next_candidate m rows = None \<longleftrightarrow> (\<forall>s\<in>set rows. \<not> claimable m s)"
proof -
  have "sort_key (\<lambda>s. (content_attempts s, time s)) (filter (claimable m) rows) = [] \<longleftrightarrow>
        filter (claimable m) rows = []"
    by (metis length_0_conv length_sort)
  then show ?thesis
    by (auto simp add: next_candidate_def filter_empty_conv split: list.splits)
qed

lemma next_candidate_Some:
  assumes "next_candidate m rows = Some c"
  shows "c \<in> set rows \<and> claimable m c \<and>
         (\<forall>t\<in>set rows. claimable m t \<longrightarrow>
            (content_attempts c, time c) \<le> (content_attempts t, time t))"
proof -
  let ?k = "\<lambda>s. (content_attempts s, time s)"
  let ?xs = "sort_key ?k (filter (claimable m) rows)"
  from assms obtain rest where xs: "?xs = c # rest"
    by (auto simp add: next_candidate_def split: list.splits)
  have "set ?xs = set (filter (claimable m) rows)" by simp
  with xs have mem: "c \<in> set (filter (claimable m) rows)"
    and all: "\<And>t. t \<in> set (filter (claimable m) rows) \<Longrightarrow> t \<in> set (c # rest)"
    by (metis list.set_intros(1), metis)
  have "sorted (map ?k ?xs)" by (rule sorted_sort_key)
  with xs have "\<forall>t\<in>set rest. ?k c \<le> ?k t" by simp
  with all have "\<forall>t\<in>set (filter (claimable m) rows). ?k c \<le> ?k t"
    by auto
  with mem show ?thesis by auto
qed

lemma pk_same_id:
  assumes "distinct (map story_id rows)" "c \<in> set rows" "s \<in> set rows" "story_id s = story_id c"
  shows "s = c"
  using assms by (meson distinct_map inj_onD)

lemma pk_filter_id:
  assumes "distinct (map story_id rows)" "c \<in> set rows"
  shows "filter (\<lambda>s. story_id s = story_id c) rows = [c]"
  using assms
proof (induction rows)
  case Nil
  then show ?case by simp
next
  case (Cons r rows)
  show ?case
  proof (cases "r = c")
    case True
    with Cons.prems have "story_id c \<notin> story_id ` set rows" by simp
    then have "\<forall>s\<in>set rows. story_id s \<noteq> story_id c" by (metis imageI)
    then have "filter (\<lambda>s. story_id s = story_id c) rows = []"
      by (simp add: filter_empty_conv)
    with True show ?thesis by simp
  next
    case False
    with Cons.prems have "c \<in> set rows" "story_id r \<noteq> story_id c" by auto
    with Cons show ?thesis by simp
  qed
qed

lemma pk_update_where:
  assumes "distinct (map story_id rows)" "c \<in> set rows"
  shows "update_where (\<lambda>s. story_id s = story_id c) f rows =
         map (\<lambda>s. if s = c then f c else s) rows"
  unfolding update_where_def
  using assms by (intro map_cong) (auto dest: pk_same_id)

lemma claim_none:
  assumes "next_candidate m (stories db0) = None"
  shows "claim_next_content_job m now db0 = (None, db0)"
  using assms by (simp add: claim_next_content_job_def)

lemma claim_some:
  assumes pk: "pk_ok db0" and c: "next_candidate m (stories db0) = Some c"
  shows "claim_next_content_job m now db0 =
           (Some \<lparr>job_id = story_id c, job_url = url c, job_domain = domain c,
                  job_attempts = content_attempts c + 1\<rparr>,
            db0\<lparr>stories :=
              map (\<lambda>s. if s = c
                        then c\<lparr>content_status := ''fetching'',
                               content_attempts := content_attempts c + 1,
                               updated_at := now\<rparr>
                        else s) (stories db0)\<rparr>)"
proof -
  from next_candidate_Some [OF c] have mem: "c \<in> set (stories db0)" by simp
  from pk have d: "distinct (map story_id (stories db0))" by (simp add: pk_ok_def)
  have f: "filter (\<lambda>s. story_id s = story_id c) (stories db0) = [c]"
    by (rule pk_filter_id [OF d mem])
  show ?thesis
    using c by (simp add: claim_next_content_job_def f pk_update_where [OF d mem] Let_def)
qed

text \<open>
  C4. Atomic job claim, for a store whose story ids are distinct (the primary key). When
  no story is claimable the call returns \<open>None\<close> and the store is unchanged. Otherwise
  the call picks a claimable story that no claimable story precedes in the order fewer
  attempts first, then older first; it sets the status of that one row to \<open>fetching\<close>,
  adds 1 to its attempts, and returns its id, url, domain and the new attempts.
\<close>

theorem claim_next_content_job_spec:
  assumes pk: "pk_ok db0"
  shows "(case claim_next_content_job m now db0 of
            (None, db1) \<Rightarrow> db1 = db0 \<and> \<not> list_ex (claimable m) (stories db0)
          | (Some j, db1) \<Rightarrow>
              (\<exists>c \<in> set (stories db0).
                 claimable m c \<and>
                 list_all (\<lambda>t. \<not> claimable m t \<or> content_attempts c < content_attempts t \<or>
                             (content_attempts c = content_attempts t \<and> time c \<le> time t))
                   (stories db0) \<and>
                 j = \<lparr>job_id = story_id c, job_url = url c, job_domain = domain c,
                      job_attempts = content_attempts c + 1\<rparr> \<and>
                 db1 = db0\<lparr>stories :=
                   map (\<lambda>s. if s = c
                             then c\<lparr>content_status := ''fetching'',
                                    content_attempts := content_attempts c + 1,
                                    updated_at := now\<rparr>
                             else s) (stories db0)\<rparr>))"
proof (cases "next_candidate m (stories db0)")
  case None
  from None have "\<not> list_ex (claimable m) (stories db0)"
    unfolding next_candidate_None by (simp add: list_ex_iff)
  with claim_none [OF None] show ?thesis by simp
next
  case (Some c)
  from next_candidate_Some [OF Some]
  have mem: "c \<in> set (stories db0)" and cl: "claimable m c"
    and least: "\<forall>t\<in>set (stories db0). claimable m t \<longrightarrow>
                  (content_attempts c, time c) \<le> (content_attempts t, time t)"
    by auto
  have least': "list_all (\<lambda>t. \<not> claimable m t \<or> content_attempts c < content_attempts t \<or>
                             (content_attempts c = content_attempts t \<and> time c \<le> time t))
                   (stories db0)"
    using least by (auto simp add: list_all_iff less_eq_prod_def)
  show ?thesis
    unfolding claim_some [OF pk Some] using mem cl least' by auto
qed

theorem claim_next_content_job_spec_witness:
  "pk_ok queue_db \<and>
   fst (claim_next_content_job 3 100 queue_db) =
     Some \<lparr>job_id = 3, job_url = Some (S ''http://c.example/''), job_domain = None,
           job_attempts = 1\<rparr> \<and>
   map content_status (stories (snd (claim_next_content_job 3 100 queue_db))) =
     [''retry'', ''pending'', ''fetching'', ''pending'', ''done''] \<and>
   map content_attempts (stories (snd (claim_next_content_job 3 100 queue_db))) =
     [1, 0, 1, 0, 3]"
proof -
  have pk: "pk_ok queue_db" by code_simp
  have j: "fst (claim_next_content_job 3 100 queue_db) =
     Some \<lparr>job_id = 3, job_url = Some (S ''http://c.example/''), job_domain = None,
           job_attempts = 1\<rparr>"
    by code_simp
  have st: "map content_status (stories (snd (claim_next_content_job 3 100 queue_db))) =
     [''retry'', ''pending'', ''fetching'', ''pending'', ''done'']"
    by code_simp
  have at: "map content_attempts (stories (snd (claim_next_content_job 3 100 queue_db))) =
     [1, 0, 1, 0, 3]"
    by code_simp
  from claim_next_content_job_spec [OF pk, of 3 100] pk j st at
  show ?thesis by simp
qed

section \<open>The attempt counter\<close>

lemma list_all_update_where:
  assumes "list_all Q rows" "\<And>r. Q r \<Longrightarrow> P r \<Longrightarrow> Q (f r)"
  shows "list_all Q (update_where P f rows)"
  using assms by (auto simp add: update_where_def list_all_iff)

lemma retry_bounded:
  "attempts_bounded db0 \<Longrightarrow> attempts_bounded (retry_content_job sid now db0)"
  by (simp add: attempts_bounded_def retry_content_job_def list_all_update_where)

lemma complete_update_bounded:
  "attempts_bounded db0 \<Longrightarrow>
   attempts_bounded (complete_content_job_update sid c st src ms now db0)"
  by (simp add: attempts_bounded_def complete_content_job_update_def list_all_update_where)

lemma complete_bounded:
  "attempts_bounded db0 \<Longrightarrow>
   attempts_bounded (store_after db0 (complete_content_job K sid c st src ms now db0))"
  by (simp add: store_after_def complete_content_job_def complete_update_bounded
      split: sum.splits)

lemma cleanup_stuck_bounded:
  "attempts_bounded db0 \<Longrightarrow> attempts_bounded (snd (cleanup_stuck_content_jobs m now db0))"
  by (simp add: attempts_bounded_def cleanup_stuck_content_jobs_def Let_def
      list_all_update_where)

lemma upsert_bounded:
  "attempts_bounded db0 \<Longrightarrow> attempts_bounded (store_after db0 (upsert_story K now d db0))"
  by (simp add: attempts_bounded_def upsert_story_def store_after_def list_all_update_where
      new_story_def MAX_RETRIES_def split: sum.splits option.splits)

lemma claim_bounded:
  assumes b: "attempts_bounded db0" and pk: "pk_ok db0"
  shows "attempts_bounded (snd (claim_next_content_job MAX_RETRIES now db0))"
proof (cases "next_candidate MAX_RETRIES (stories db0)")
  case None
  with b show ?thesis by (simp add: claim_none)
next
  case (Some c)
  from next_candidate_Some [OF Some] have "content_attempts c < MAX_RETRIES"
    by (simp add: claimable_def)
  with b show ?thesis
    by (auto simp add: claim_some [OF pk Some] attempts_bounded_def list_all_iff)
qed

lemma claim_skips_terminal:
  assumes pk: "pk_ok db0"
    and r: "claim_next_content_job m now db0 = (Some j, db1)"
    and s: "s \<in> set (stories db0)" and t: "terminal (content_status s)"
  shows "story_id s \<noteq> job_id j \<and> s \<in> set (stories db1)"
proof (cases "next_candidate m (stories db0)")
  case None
  with r show ?thesis by (simp add: claim_none)
next
  case (Some c)
  from next_candidate_Some [OF Some]
  have mem: "c \<in> set (stories db0)" and cl: "claimable m c" by auto
  from cl t have ne: "s \<noteq> c" by (auto simp add: claimable_def terminal_def)
  from pk have d: "distinct (map story_id (stories db0))" by (simp add: pk_ok_def)
  from ne pk_same_id [OF d mem s] have "story_id s \<noteq> story_id c" by blast
  moreover from r have j: "job_id j = story_id c" and
    db1: "stories db1 = map (\<lambda>s. if s = c
                        then c\<lparr>content_status := ''fetching'',
                               content_attempts := content_attempts c + 1,
                               updated_at := now\<rparr>
                        else s) (stories db0)"
    unfolding claim_some [OF pk Some] by auto
  moreover from s ne have "s \<in> set (stories db1)"
    unfolding db1 by (auto simp add: image_iff)
  ultimately show ?thesis by simp
qed

text \<open>
  C5. Attempt count and terminal states: in a store with distinct story ids where every
  story has at most \<open>MAX_RETRIES\<close> (3) attempts, the same holds after each of
  \<open>claim_next_content_job\<close> (with that limit), \<open>retry_content_job\<close>,
  \<open>complete_content_job\<close>, \<open>cleanup_stuck_content_jobs\<close> and \<open>upsert_story\<close>, whether the
  call returns or raises; and a claim never returns a story whose status is \<open>done\<close>, \<open>failed\<close>, \<open>blocked\<close> or \<open>skipped\<close>,
  and leaves the row of every such story as it is.
\<close>

theorem attempts_invariant:
  assumes "attempts_bounded db0" and "pk_ok db0"
  shows "attempts_bounded (snd (claim_next_content_job MAX_RETRIES now db0)) \<and>
         attempts_bounded (retry_content_job sid now db0) \<and>
         attempts_bounded (store_after db0 (complete_content_job K sid c st src ms now db0)) \<and>
         attempts_bounded (snd (cleanup_stuck_content_jobs MAX_RETRIES now db0)) \<and>
         attempts_bounded (store_after db0 (upsert_story K now d db0)) \<and>
         (\<forall>m j db1 s. claim_next_content_job m now db0 = (Some j, db1) \<and>
                      s \<in> set (stories db0) \<and> terminal (content_status s) \<longrightarrow>
                      story_id s \<noteq> job_id j \<and> s \<in> set (stories db1))"
proof (intro conjI allI impI)
  show "attempts_bounded (snd (claim_next_content_job MAX_RETRIES now db0))"
    using assms by (rule claim_bounded)
  show "attempts_bounded (retry_content_job sid now db0)"
    using assms(1) by (rule retry_bounded)
  show "attempts_bounded (store_after db0 (complete_content_job K sid c st src ms now db0))"
    using assms(1) by (rule complete_bounded)
  show "attempts_bounded (snd (cleanup_stuck_content_jobs MAX_RETRIES now db0))"
    using assms(1) by (rule cleanup_stuck_bounded)
  show "attempts_bounded (store_after db0 (upsert_story K now d db0))"
    using assms(1) by (rule upsert_bounded)
next
  fix m j db1 s
  assume h: "claim_next_content_job m now db0 = (Some j, db1) \<and>
             s \<in> set (stories db0) \<and> terminal (content_status s)"
  then show "story_id s \<noteq> job_id j"
    using claim_skips_terminal [OF assms(2), of m now j db1 s] by simp
  from h show "s \<in> set (stories db1)"
    using claim_skips_terminal [OF assms(2), of m now j db1 s] by simp
qed

theorem attempts_invariant_witness:
  "attempts_bounded queue_db \<and> pk_ok queue_db \<and>
   attempts_bounded (snd (claim_next_content_job MAX_RETRIES 100 queue_db)) \<and>
   attempts_bounded (retry_content_job 3 100 queue_db) \<and>
   attempts_bounded (store_after queue_db
     (complete_content_job toy_codec 3 (Some (S ''text'')) ''done'' None 0 100 queue_db)) \<and>
   attempts_bounded (snd (cleanup_stuck_content_jobs MAX_RETRIES 100 queue_db)) \<and>
   attempts_bounded (store_after queue_db (upsert_story toy_codec 100 (ask_dict None 1) queue_db)) \<and>
   map content_attempts (stories (snd (claim_next_content_job MAX_RETRIES 100 queue_db))) =
     [1, 0, 1, 0, 3]"
proof -
  have b: "attempts_bounded queue_db" by code_simp
  have pk: "pk_ok queue_db" by code_simp
  have at: "map content_attempts (stories (snd (claim_next_content_job MAX_RETRIES 100 queue_db))) =
     [1, 0, 1, 0, 3]"
    by code_simp
  from attempts_invariant [OF b pk, of 100 3 toy_codec "Some (S ''text'')" "''done''" None 0
      "ask_dict None 1"] b pk at
  show ?thesis by simp
qed

section \<open>Upsert\<close>

lemma has_story_iff: "has_story db0 i \<longleftrightarrow> i \<in> story_id ` set (stories db0)"
  by (auto simp add: has_story_def list_ex_iff)

lemma upsert_conflict_eq:
  assumes pk: "pk_ok db0" and s: "s \<in> set (stories db0)" and i: "story_id s = d_id d"
  shows "upsert_story K now d db0 =
         (if \<not> truthy (d_url d) \<and> truthy (d_text d) then
            (case compress_content K (the (d_text d)) of
               Inl e \<Rightarrow> Inl e
             | Inr z \<Rightarrow>
                 (case bind_error (story_params d) of
                    Some e \<Rightarrow> Inl e
                  | None \<Rightarrow>
                      Inr (db0\<lparr>stories := map (\<lambda>r. if r = s then
                             (if content s = None
                              then s\<lparr>score := d_score d, descendants := d_descendants d,
                                     content := Some z, content_status := ''done'',
                                     content_source := Some ''hn_text'', updated_at := now\<rparr>
                              else s\<lparr>score := d_score d, descendants := d_descendants d,
                                     updated_at := now\<rparr>)
                             else r) (stories db0)\<rparr>)))
          else
            (case bind_error (story_params d) of
               Some e \<Rightarrow> Inl e
             | None \<Rightarrow>
                 Inr (db0\<lparr>stories := map (\<lambda>r. if r = s then
                        s\<lparr>score := d_score d, descendants := d_descendants d,
                           updated_at := now\<rparr>
                        else r) (stories db0)\<rparr>)))"
proof -
  from pk have d: "distinct (map story_id (stories db0))" by (simp add: pk_ok_def)
  from s i have h: "has_story db0 (d_id d)" by (metis has_story_iff imageI)
  have u: "update_where (\<lambda>r. story_id r = d_id d) f (stories db0) =
           map (\<lambda>r. if r = s then f s else r) (stories db0)" for f
    using pk_update_where [OF d s, of f] i by simp
  show ?thesis
  proof (cases "\<not> truthy (d_url d) \<and> truthy (d_text d)")
    case True
    show ?thesis
    proof (cases "compress_content K (the (d_text d))")
      case (Inl e)
      with True show ?thesis by (simp add: upsert_story_def)
    next
      case (Inr z)
      show ?thesis
      proof (cases "bind_error (story_params d)")
        case (Some e)
        with True Inr show ?thesis by (simp add: upsert_story_def)
      next
        case None
        have e: "upsert_story K now d db0 =
          Inr (db0\<lparr>stories := update_where (\<lambda>s. story_id s = d_id d)
             (\<lambda>s. s\<lparr>score := d_score d, descendants := d_descendants d,
                    content := (case content s of None \<Rightarrow> Some z | Some c \<Rightarrow> Some c),
                    content_status := (if content s = None then ''done'' else content_status s),
                    content_source := (if content s = None then Some ''hn_text''
                                       else content_source s),
                    updated_at := now\<rparr>)
             (stories db0)\<rparr>)"
          using h True Inr None unfolding upsert_story_def
          by (simp only: if_True simp_thms sum.case option.case)
        have r: "upsert_story K now d db0 =
          Inr (db0\<lparr>stories := map (\<lambda>r. if r = s then
                             (if content s = None
                              then s\<lparr>score := d_score d, descendants := d_descendants d,
                                     content := Some z, content_status := ''done'',
                                     content_source := Some ''hn_text'', updated_at := now\<rparr>
                              else s\<lparr>score := d_score d, descendants := d_descendants d,
                                     updated_at := now\<rparr>)
                             else r) (stories db0)\<rparr>)"
        proof (cases "content s")
          case None
          then show ?thesis unfolding e u by simp
        next
          case (Some c)
          then show ?thesis unfolding e u by simp
        qed
        from True Inr None show ?thesis
          unfolding r by (simp only: if_True simp_thms sum.case option.case)
      qed
    qed
  next
    case False
    then have c: "(\<not> truthy (d_url d) \<and> truthy (d_text d)) = False" by blast
    show ?thesis
    proof (cases "bind_error (story_params d)")
      case (Some e)
      then show ?thesis unfolding upsert_story_def c by simp
    next
      case None
      have e: "upsert_story K now d db0 =
         Inr (db0\<lparr>stories := update_where (\<lambda>s. story_id s = d_id d)
             (\<lambda>s. s\<lparr>score := d_score d, descendants := d_descendants d, updated_at := now\<rparr>)
             (stories db0)\<rparr>)"
        using h None unfolding upsert_story_def c
        by (simp only: if_True if_False simp_thms option.case)
      from None show ?thesis
        unfolding e u c by (simp only: if_False option.case)
    qed
  qed
qed

text \<open>
  C6 (as amended). Upsert on conflict, for a store with distinct story ids. The call
  raises, and changes nothing, when the text of a self post cannot be compressed or a
  parameter does not bind. Otherwise it changes the row with the id of the dictionary
  and nothing else. In that row it sets score, descendants and \<open>updated_at\<close>; and if
  the dictionary is a self post (no URL, non-empty text) and the content of the row is
  \<open>NULL\<close>, it also sets the content to the compressed text, the status to \<open>done\<close> and
  the source to \<open>hn_text\<close>. A row that has content keeps its content, status and source.
\<close>

theorem upsert_story_conflict:
  assumes "pk_ok db0" and "s \<in> set (stories db0)" and "story_id s = d_id d"
  shows "upsert_story K now d db0 =
         (if \<not> truthy (d_url d) \<and> truthy (d_text d) then
            (case compress_content K (the (d_text d)) of
               Inl e \<Rightarrow> Inl e
             | Inr z \<Rightarrow>
                 (case bind_error (story_params d) of
                    Some e \<Rightarrow> Inl e
                  | None \<Rightarrow>
                      Inr (db0\<lparr>stories := map (\<lambda>r. if r = s then
                             (if content s = None
                              then s\<lparr>score := d_score d, descendants := d_descendants d,
                                     content := Some z, content_status := ''done'',
                                     content_source := Some ''hn_text'', updated_at := now\<rparr>
                              else s\<lparr>score := d_score d, descendants := d_descendants d,
                                     updated_at := now\<rparr>)
                             else r) (stories db0)\<rparr>)))
          else
            (case bind_error (story_params d) of
               Some e \<Rightarrow> Inl e
             | None \<Rightarrow>
                 Inr (db0\<lparr>stories := map (\<lambda>r. if r = s then
                        s\<lparr>score := d_score d, descendants := d_descendants d,
                           updated_at := now\<rparr>
                        else r) (stories db0)\<rparr>)))"
  using assms by (rule upsert_conflict_eq)

theorem upsert_story_conflict_witness:
  "pk_ok ask_db \<and> new_story (ask_dict None 1) None ''pending'' None 1 \<in> set (stories ask_db) \<and>
   story_id (new_story (ask_dict None 1) None ''pending'' None 1) = d_id (ask_dict None 5) \<and>
   upsert_story toy_codec 2 (ask_dict None 5) ask_db =
     Inr (ask_db\<lparr>stories := [(new_story (ask_dict None 1) None ''pending'' None 1)
                                \<lparr>score := 5, descendants := 0, updated_at := 2\<rparr>]\<rparr>)"
proof -
  let ?s = "new_story (ask_dict None 1) None ''pending'' None 1"
  have b1: "bind_error (story_params (ask_dict None 1)) = None" by code_simp
  have b5: "bind_error (story_params (ask_dict None 5)) = None" by code_simp
  have st: "stories ask_db = [?s]"
    by (simp add: ask_db_def upsert_story_def b1 store_after_def)
       (simp add: ask_dict_def empty_db_def has_story_def)
  have pk: "pk_ok ask_db" by (simp add: pk_ok_def st)
  have mem: "?s \<in> set (stories ask_db)" by (simp add: st)
  have i: "story_id ?s = d_id (ask_dict None 5)" by (simp add: new_story_def ask_dict_def)
  have u: "\<not> truthy (d_url (ask_dict None 5))" "\<not> truthy (d_text (ask_dict None 5))"
    "d_score (ask_dict None 5) = 5" "d_descendants (ask_dict None 5) = 0"
    by (simp_all add: ask_dict_def)
  from upsert_story_conflict [OF pk mem i, of toy_codec 2] pk mem i
  show ?thesis by (simp add: st u b5)
qed

text \<open>
  The claim as stated fails: a self post first ingested without text has no content,
  and the upsert that brings its text sets content, status and source of the row.
\<close>

theorem upsert_story_conflict_counterexample:
  "has_story ask_db 7 \<and>
   map content (stories ask_db) = [None] \<and>
   map content_status (stories ask_db) = [''pending''] \<and>
   map content_source (stories ask_db) = [None] \<and>
   map content (stories (store_after ask_db
       (upsert_story toy_codec 2 (ask_dict (Some ''hi'') 5) ask_db))) =
     [Some (S ''z:ii'' @ [0, 0, 0, 0] @ S ''hh'' @ [0, 0, 0, 0])] \<and>
   map content_status (stories (store_after ask_db
       (upsert_story toy_codec 2 (ask_dict (Some ''hi'') 5) ask_db))) =
     [''done''] \<and>
   map content_source (stories (store_after ask_db
       (upsert_story toy_codec 2 (ask_dict (Some ''hi'') 5) ask_db))) =
     [Some ''hn_text'']"
  by code_simp

section \<open>Dismissal markers and retention\<close>

text \<open>
  C1. Dismissal persistence does not hold of \<open>cleanup_stories\<close>: story 1 was dismissed
  100000 seconds before the cleanup, which is past the 24 hours and far from the 60
  days. The cleanup deletes the story and, with it, the row of \<open>dismissed\<close>.
\<close>

theorem cleanup_stories_drops_dismissal:
  "has_story dismissed_db 1 \<and> dismissed dismissed_db = [(1, 1000000)] \<and>
   \<not> (1000000 < 1100000 - 60 * 24 * (3600::int)) \<and>
   fst (cleanup_stories 24 14 90 1100000 dismissed_db) = (1, 0) \<and>
   stories (snd (cleanup_stories 24 14 90 1100000 dismissed_db)) = [] \<and>
   dismissed (snd (cleanup_stories 24 14 90 1100000 dismissed_db)) = []"
  by code_simp

lemma cleanup_stories_deletes_marker:
  assumes "s \<in> set (stories db0)" and "(story_id s, t) \<in> set (dismissed db0)"
    and "t < now - h * 3600"
  shows "story_id s \<notin> fst ` set (dismissed (snd (cleanup_stories h a c now db0)))"
proof -
  let ?dis = "map story_id
            (filter (\<lambda>s. list_ex (\<lambda>r. fst r = story_id s \<and> snd r < now - h * 3600)
                            (dismissed db0)) (stories db0))"
  let ?old = "map story_id
            (filter (\<lambda>s. time s < now - a * 24 * 3600 \<and>
                          story_id s \<notin> set (map fst (read_later db0)) \<and>
                          story_id s \<notin> set (map fst (dismissed db0))) (stories db0))"
  from assms(2,3) have "list_ex (\<lambda>r. fst r = story_id s \<and> snd r < now - h * 3600) (dismissed db0)"
    unfolding list_ex_iff by force
  with assms(1) have m: "story_id s \<in> set (?dis @ ?old)" by simp
  then have ne: "?dis @ ?old \<noteq> []" by (metis empty_iff empty_set)
  have "dismissed (snd (cleanup_stories h a c now db0)) =
        filter (\<lambda>r. \<not> snd r < now - 60 * 24 * 3600)
          (filter (\<lambda>r. fst r \<notin> set (?dis @ ?old)) (dismissed db0))"
    unfolding cleanup_stories_def Let_def using ne by simp
  with m show ?thesis by auto
qed

section \<open>Teasers\<close>

lemma in_update_where:
  assumes "s \<in> set (update_where P f rows)"
  shows "(\<exists>r \<in> set rows. P r \<and> s = f r) \<or> (s \<in> set rows \<and> \<not> P s)"
  using assms by (auto simp add: update_where_def split: if_splits)

lemma update_content_teaser:
  assumes "truthy c" and "update_content K sid c st src ms now db0 = Inr db1"
    and "s \<in> set (stories db1)" and "story_id s = sid"
  shows "content s = c \<and> teaser s = Some (make_teaser (decompress_content K (the c)))"
proof -
  from assms(1) obtain x where c: "c = Some x" and x: "x \<noteq> []" by (cases c) auto
  let ?f = "\<lambda>s. s\<lparr>content := c, content_status := st, content_source := src,
                  browser_ms := ms, teaser := Some (make_teaser (decompress_content K x)),
                  updated_at := now\<rparr>"
  have "stories db1 = update_where (\<lambda>s. story_id s = sid) ?f (stories db0)"
    using x assms(2)
    by (auto simp add: update_content_def Let_def c decompress_plain split: option.splits)
  with assms(3) have "s \<in> set (update_where (\<lambda>s. story_id s = sid) ?f (stories db0))"
    by simp
  from in_update_where [OF this] assms(4) obtain r where "s = ?f r" by blast
  then show ?thesis by (simp add: c)
qed

lemma map_teaser_update_where:
  assumes "\<And>r. teaser (f r) = teaser r"
  shows "map teaser (update_where P f rows) = map teaser rows"
  by (induction rows) (simp_all add: update_where_def assms)

lemma complete_content_job_teaser:
  "map teaser (stories (store_after db0 (complete_content_job K sid c st src ms now db0))) =
   map teaser (stories db0)"
  by (simp add: complete_content_job_def complete_content_job_update_def store_after_def
      map_teaser_update_where split: sum.splits)

text \<open>
  C2. Teaser consistency does not hold of \<open>complete_content_job\<close>: the worker writes
  the content \<open>hello\<close> of story 1, whose teaser would be \<open>hello\<close>, and the teaser of
  the row stays \<open>NULL\<close>. \<open>update_content\<close> writes content and teaser together.
\<close>

theorem complete_content_job_stale_teaser:
  "compress_content toy_codec (S ''hello'') =
     Inr (S ''z:oo'' @ [0, 0, 0, 0] @ S ''ll'' @ [0, 0, 0, 0] @ S ''ll'' @ [0, 0, 0, 0] @
          S ''ee'' @ [0, 0, 0, 0] @ S ''hh'' @ [0, 0, 0, 0]) \<and>
   map content (stories (store_after fetching_db
       (complete_content_job toy_codec 1 (Some (S ''hello'')) ''done''
          (Some ''cloudflare'') 5 100 fetching_db))) =
     [Some (S ''z:oo'' @ [0, 0, 0, 0] @ S ''ll'' @ [0, 0, 0, 0] @ S ''ll'' @ [0, 0, 0, 0] @
            S ''ee'' @ [0, 0, 0, 0] @ S ''hh'' @ [0, 0, 0, 0])] \<and>
   decompress_content toy_codec
     (S ''z:oo'' @ [0, 0, 0, 0] @ S ''ll'' @ [0, 0, 0, 0] @ S ''ll'' @ [0, 0, 0, 0] @
      S ''ee'' @ [0, 0, 0, 0] @ S ''hh'' @ [0, 0, 0, 0]) = S ''hello'' \<and>
   make_teaser (S ''hello'') = S ''hello'' \<and>
   map teaser (stories (store_after fetching_db
       (complete_content_job toy_codec 1 (Some (S ''hello'')) ''done''
          (Some ''cloudflare'') 5 100 fetching_db))) = [None] \<and>
   map teaser (stories (store_after fetching_db
       (update_content toy_codec 1
          (Some (S ''z:oo'' @ [0, 0, 0, 0] @ S ''ll'' @ [0, 0, 0, 0] @ S ''ll'' @ [0, 0, 0, 0] @
                 S ''ee'' @ [0, 0, 0, 0] @ S ''hh'' @ [0, 0, 0, 0]))
          ''done'' (Some ''cloudflare'') 5 100 fetching_db))) = [Some (S ''hello'')]"
  by code_simp

section \<open>The cache-hit path of the worker\<close>

lemma cache_hit_eq:
  assumes "claim_next_content_job MAX_RETRIES now db0 = (Some j, db1)"
    and "get_cached_content db1 (job_url j) = Some cached"
  shows "content_worker_pass K fetch now db0 =
           (case complete_content_job K (job_id j) (c_content cached) ''done''
                   (c_source cached) (c_browser_ms cached) now db1 of
              Inl e \<Rightarrow> on_exception K (job_id j) (job_attempts j) now db1
            | Inr db2 \<Rightarrow> (Cached, db2))"
  using assms by (simp add: content_worker_pass_def Let_def)

lemma claim_result:
  assumes "claim_next_content_job m now db0 = (Some j, db1)"
  obtains c r rest where
    "next_candidate m (stories db0) = Some c"
    "filter (\<lambda>s. story_id s = story_id c) (stories db0) = r # rest"
    "job_id j = story_id r" "job_url j = url r"
    "db1 = db0\<lparr>stories := update_where (\<lambda>s. story_id s = story_id c)
                   (\<lambda>s. s\<lparr>content_status := ''fetching'',
                          content_attempts := content_attempts s + 1, updated_at := now\<rparr>)
                   (stories db0)\<rparr>"
proof (cases "next_candidate m (stories db0)")
  case None
  with assms show ?thesis by (simp add: claim_next_content_job_def)
next
  case (Some c)
  show ?thesis
  proof (cases "filter (\<lambda>s. story_id s = story_id c) (stories db0)")
    case Nil
    with assms Some show ?thesis by (simp add: claim_next_content_job_def)
  next
    case (Cons r rest)
    with assms Some have "job_id j = story_id r" "job_url j = url r"
           "db1 = db0\<lparr>stories := update_where (\<lambda>s. story_id s = story_id c)
                   (\<lambda>s. s\<lparr>content_status := ''fetching'',
                          content_attempts := content_attempts s + 1, updated_at := now\<rparr>)
                   (stories db0)\<rparr>"
      by (auto simp add: claim_next_content_job_def)
    with Some Cons show ?thesis by (rule that)
  qed
qed

lemma claim_usage_log:
  assumes "claim_next_content_job m now db0 = (Some j, db1)"
  shows "usage_log db1 = usage_log db0"
proof (rule claim_result [OF assms])
  fix c
  assume "db1 = db0\<lparr>stories := update_where (\<lambda>s. story_id s = story_id c)
                   (\<lambda>s. s\<lparr>content_status := ''fetching'',
                          content_attempts := content_attempts s + 1, updated_at := now\<rparr>)
                   (stories db0)\<rparr>"
  then show ?thesis by simp
qed

lemma claim_row_exists:
  assumes "claim_next_content_job m now db0 = (Some j, db1)"
  shows "\<exists>s \<in> set (stories db1). story_id s = job_id j"
proof (rule claim_result [OF assms])
  let ?claim = "\<lambda>s. s\<lparr>content_status := ''fetching'',
                       content_attempts := content_attempts s + 1, updated_at := now\<rparr>"
  fix c r rest
  assume hits: "filter (\<lambda>s. story_id s = story_id c) (stories db0) = r # rest"
    and j: "job_id j = story_id r"
    and d: "db1 = db0\<lparr>stories := update_where (\<lambda>s. story_id s = story_id c) ?claim
                                       (stories db0)\<rparr>"
  have db1: "stories db1 = update_where (\<lambda>s. story_id s = story_id c) ?claim (stories db0)"
    unfolding d by simp
  have "r \<in> set (filter (\<lambda>s. story_id s = story_id c) (stories db0))"
    unfolding hits by simp
  then have r: "r \<in> set (stories db0)" "story_id r = story_id c" by simp_all
  then have "?claim r \<in> set (stories db1)"
    unfolding db1 update_where_def by force
  moreover have "story_id (?claim r) = job_id j" using j by simp
  ultimately show ?thesis by blast
qed

lemma claim_fetched_urls:
  assumes "claim_next_content_job m now db0 = (Some j, db1)"
  shows "fetched_urls db1 = fetched_urls db0"
proof (rule claim_result [OF assms])
  fix c
  assume "db1 = db0\<lparr>stories := update_where (\<lambda>s. story_id s = story_id c)
                   (\<lambda>s. s\<lparr>content_status := ''fetching'',
                          content_attempts := content_attempts s + 1, updated_at := now\<rparr>)
                   (stories db0)\<rparr>"
  then show ?thesis by simp
qed

lemma get_cached_content_mem:
  assumes "get_cached_content d u = Some cached"
  shows "cached \<in> set (fetched_urls d)"
proof -
  from assms obtain rest where
    "filter (\<lambda>c. u \<noteq> None \<and> c_url c = u) (fetched_urls d) = cached # rest"
    by (auto simp add: get_cached_content_def split: list.splits)
  then have "cached \<in> set (filter (\<lambda>c. u \<noteq> None \<and> c_url c = u) (fetched_urls d))"
    by simp
  then show ?thesis by simp
qed

lemma complete_row:
  assumes "s \<in> set (stories (complete_content_job_update sid p st src ms now db0))"
    and "story_id s = sid"
  shows "content s = p \<and> content_status s = st \<and> content_source s = src \<and> browser_ms s = ms"
proof -
  let ?f = "\<lambda>s. s\<lparr>content := p, content_status := st, content_source := src,
                  browser_ms := ms, updated_at := now\<rparr>"
  have "stories (complete_content_job_update sid p st src ms now db0) =
        update_where (\<lambda>s. story_id s = sid) ?f (stories db0)"
    by (simp add: complete_content_job_update_def)
  with assms(1) have "s \<in> set (update_where (\<lambda>s. story_id s = sid) ?f (stories db0))"
    by simp
  from in_update_where [OF this] assms(2) obtain r where "s = ?f r" by blast
  then show ?thesis by simp
qed

lemma complete_ids:
  "map story_id (stories (complete_content_job_update sid p st src ms now db0)) =
   map story_id (stories db0)"
  by (simp add: complete_content_job_update_def update_where_def)

lemma complete_usage_log:
  "usage_log (complete_content_job_update sid p st src ms now db0) = usage_log db0"
  by (simp add: complete_content_job_update_def)

text \<open>The cache keeps text that UTF-8 encodes when the worker adds a row to it.\<close>

lemma cache_content_cache_ok:
  assumes "cache_ok db0" and "cache_content u c src ms now db0 = Inr db1"
  shows "cache_ok db1"
proof -
  from assms(2) have b: "bind_error [PText u, PText c] = None"
    and d: "db1 = db0\<lparr>fetched_urls :=
              filter (\<lambda>r. \<not> (u \<noteq> None \<and> c_url r = u)) (fetched_urls db0) @
              [\<lparr>c_url = u, c_content = c, c_source = src, c_browser_ms = ms,
                c_fetched_at = now\<rparr>]\<rparr>"
    by (auto simp add: cache_content_def split: option.splits)
  from b have "case c of None \<Rightarrow> True | Some s \<Rightarrow> encodable s"
    by (cases u; cases c) (auto split: if_splits)
  with assms(1) show ?thesis
    unfolding d by (auto simp add: cache_ok_def list_all_iff)
qed

text \<open>
  C3 (as amended). URL-cache hit, for a cache whose text UTF-8 encodes: when the
  worker claims a job and the URL of the job has a row in \<open>fetched_urls\<close>, the pass
  completes the job from that row and appends nothing to the usage log. Afterwards the
  story has status \<open>done\<close>, the compressed cached text as content, the cached source
  tag, and in \<open>browser_ms\<close> the billed milliseconds of the cached row (those of the
  first fetch, not 0).
\<close>

theorem cache_hit_pass:
  assumes "codec_ok K" and "cache_ok db0"
    and "claim_next_content_job MAX_RETRIES now db0 = (Some j, db1)"
    and "get_cached_content db1 (job_url j) = Some cached"
  shows "fst (content_worker_pass K fetch now db0) = Cached \<and>
         usage_log (snd (content_worker_pass K fetch now db0)) = usage_log db0 \<and>
         (\<exists>s \<in> set (stories (snd (content_worker_pass K fetch now db0))).
            story_id s = job_id j) \<and>
         (\<forall>s \<in> set (stories (snd (content_worker_pass K fetch now db0))).
            story_id s = job_id j \<longrightarrow>
              content_status s = ''done'' \<and>
              (if truthy (c_content cached)
               then \<exists>z. compress_content K (the (c_content cached)) = Inr z \<and>
                        content s = Some z
               else content s = c_content cached) \<and>
              content_source s = c_source cached \<and>
              browser_ms s = c_browser_ms cached)"
proof -
  obtain p where
    p: "if truthy (c_content cached)
        then \<exists>z. compress_content K (the (c_content cached)) = Inr z \<and> p = Some z
        else p = c_content cached"
    and c: "complete_content_job K (job_id j) (c_content cached) ''done''
              (c_source cached) (c_browser_ms cached) now db1 =
            Inr (complete_content_job_update (job_id j) p ''done''
                   (c_source cached) (c_browser_ms cached) now db1)"
  proof (cases "truthy (c_content cached)")
    case False
    then show ?thesis using that [of "c_content cached"]
      by (simp add: complete_content_job_def)
  next
    case True
    then obtain x where x: "c_content cached = Some x" "x \<noteq> []"
      by (cases "c_content cached") auto
    from get_cached_content_mem [OF assms(4)] claim_fetched_urls [OF assms(3)]
    have "cached \<in> set (fetched_urls db0)" by simp
    with assms(2) x have "encodable x"
      by (auto simp add: cache_ok_def list_all_iff split: option.splits)
    from compress_encodable [OF assms(1) x(2) this]
    obtain z where z: "compress_content K x = Inr z" by blast
    with True x show ?thesis using that [of "Some z"]
      by (simp add: complete_content_job_def)
  qed
  let ?db2 = "complete_content_job_update (job_id j) p ''done''
                (c_source cached) (c_browser_ms cached) now db1"
  have e: "content_worker_pass K fetch now db0 = (Cached, ?db2)"
    unfolding cache_hit_eq [OF assms(3,4)] c by simp
  have u: "usage_log ?db2 = usage_log db0"
    using claim_usage_log [OF assms(3)] by (simp add: complete_usage_log)
  from claim_row_exists [OF assms(3)]
  have "job_id j \<in> set (map story_id (stories db1))" by force
  then have "job_id j \<in> set (map story_id (stories ?db2))"
    by (simp only: complete_ids)
  then have x: "\<exists>s \<in> set (stories ?db2). story_id s = job_id j" by force
  have r: "\<forall>s \<in> set (stories ?db2). story_id s = job_id j \<longrightarrow>
              content_status s = ''done'' \<and>
              (if truthy (c_content cached)
               then \<exists>z. compress_content K (the (c_content cached)) = Inr z \<and>
                        content s = Some z
               else content s = c_content cached) \<and>
              content_source s = c_source cached \<and>
              browser_ms s = c_browser_ms cached"
  proof (intro ballI impI)
    fix s
    assume "s \<in> set (stories ?db2)" "story_id s = job_id j"
    from complete_row [OF this]
    have "content s = p" "content_status s = ''done''" "content_source s = c_source cached"
      "browser_ms s = c_browser_ms cached" by simp_all
    with p show "content_status s = ''done'' \<and>
              (if truthy (c_content cached)
               then \<exists>z. compress_content K (the (c_content cached)) = Inr z \<and>
                        content s = Some z
               else content s = c_content cached) \<and>
              content_source s = c_source cached \<and>
              browser_ms s = c_browser_ms cached"
      by (simp split: if_splits)
  qed
  show ?thesis unfolding e using u x r by simp
qed

theorem cache_hit_pass_witness:
  "codec_ok toy_codec \<and> cache_ok cached_db \<and>
   fst (claim_next_content_job MAX_RETRIES 100 cached_db) =
     Some \<lparr>job_id = 1, job_url = Some (S ''http://a.example/''), job_domain = None,
           job_attempts = 1\<rparr> \<and>
   fst (content_worker_pass toy_codec no_fetch 100 cached_db) = Cached \<and>
   usage_log (snd (content_worker_pass toy_codec no_fetch 100 cached_db)) = [] \<and>
   map content_status (stories (snd (content_worker_pass toy_codec no_fetch 100 cached_db))) =
     [''done'']"
proof -
  obtain j db1 where c: "claim_next_content_job MAX_RETRIES 100 cached_db = (Some j, db1)"
    and j: "j = \<lparr>job_id = 1, job_url = Some (S ''http://a.example/''), job_domain = None,
                 job_attempts = 1\<rparr>"
  proof -
    have "fst (claim_next_content_job MAX_RETRIES 100 cached_db) =
           Some \<lparr>job_id = 1, job_url = Some (S ''http://a.example/''), job_domain = None,
                 job_attempts = 1\<rparr>"
      by code_simp
    then show ?thesis using that by (metis prod.collapse)
  qed
  have db1: "db1 = snd (claim_next_content_job MAX_RETRIES 100 cached_db)"
    using c by simp
  have g: "get_cached_content db1 (job_url j) =
             Some \<lparr>c_url = Some (S ''http://a.example/''), c_content = Some (S ''text''),
                    c_source = Some ''cloudflare'', c_browser_ms = 1234, c_fetched_at = 40\<rparr>"
    unfolding db1 j by code_simp
  have ok: "cache_ok cached_db" by code_simp
  have l: "usage_log cached_db = []" by code_simp
  have st: "map content_status (stories (snd (content_worker_pass toy_codec no_fetch 100 cached_db))) =
     [''done'']"
    by code_simp
  from cache_hit_pass [OF toy_codec_ok ok c g, of no_fetch] toy_codec_ok ok c j l st
  show ?thesis by simp
qed

text \<open>
  The claim as stated fails on the billing column: after the cache hit the story row
  carries the 1234 ms of the cached row, not 0.
\<close>

theorem cache_hit_pass_counterexample:
  "fst (content_worker_pass toy_codec no_fetch 100 cached_db) = Cached \<and>
   map content_status (stories (snd (content_worker_pass toy_codec no_fetch 100 cached_db))) =
     [''done''] \<and>
   map browser_ms (stories (snd (content_worker_pass toy_codec no_fetch 100 cached_db))) =
     [1234] \<and>
   (1234::real) \<noteq> 0"
  by code_simp

section \<open>Dismissing and reading later at the interface\<close>

lemma dismiss_story_in_range:
  assumes "in_int64 sid"
  shows "dismiss_story sid now db0 =
           Inr (if sid \<in> set (map fst (dismissed db0)) then db0
                else db0\<lparr>dismissed := dismissed db0 @ [(sid, now)]\<rparr>)"
  using assms by (simp add: dismiss_story_def)

lemma dismiss_story_out_of_range:
  assumes "\<not> in_int64 sid"
  shows "dismiss_story sid now db0 = Inl OverflowError"
  using assms by (simp add: dismiss_story_def)

lemma add_read_later_out_of_range:
  assumes "\<not> in_int64 sid"
  shows "add_read_later sid now db0 = Inl OverflowError"
  using assms by (simp add: add_read_later_def)

lemma add_read_later_no_story:
  assumes "in_int64 sid" and "fk_ok db0" and "\<not> has_story db0 sid"
  shows "add_read_later sid now db0 = Inl IntegrityError"
proof -
  from assms(2,3) have "sid \<notin> set (map fst (read_later db0))"
    by (auto simp add: fk_ok_def list_all_iff)
  with assms(1,3) show ?thesis by (simp add: add_read_later_def)
qed

text \<open>
  C10 (as amended). The two set operations differ, for an id that SQLite can store (a
  signed 64-bit integer). \<open>dismiss_story\<close> succeeds for every such id, with or without
  a story: it keeps the store when the id is dismissed already and appends a row for
  the id otherwise, so the id is dismissed afterwards, and the route answers 200 with
  that store. \<open>add_read_later\<close>, for such an id with no story in a store that
  satisfies the foreign key of \<open>read_later\<close>, fails with an integrity error, and the
  route answers 500 with the store unchanged. For an id outside 64 bits
  \<open>dismiss_story\<close> raises \<open>OverflowError\<close> and both routes answer 500 with the store
  unchanged.
\<close>

theorem dismiss_and_read_later_asymmetry:
  "(in_int64 sid \<longrightarrow>
      dismiss_story sid now db0 =
        Inr (if sid \<in> set (map fst (dismissed db0)) then db0
             else db0\<lparr>dismissed := dismissed db0 @ [(sid, now)]\<rparr>) \<and>
      api_dismiss_story sid now db0 =
        (200, if sid \<in> set (map fst (dismissed db0)) then db0
              else db0\<lparr>dismissed := dismissed db0 @ [(sid, now)]\<rparr>) \<and>
      sid \<in> set (map fst (dismissed (snd (api_dismiss_story sid now db0))))) \<and>
   (in_int64 sid \<and> fk_ok db0 \<and> \<not> has_story db0 sid \<longrightarrow>
      add_read_later sid now db0 = Inl IntegrityError \<and>
      api_add_read_later sid now db0 = (500, db0)) \<and>
   (\<not> in_int64 sid \<longrightarrow>
      dismiss_story sid now db0 = Inl OverflowError \<and>
      api_dismiss_story sid now db0 = (500, db0) \<and>
      api_add_read_later sid now db0 = (500, db0))"
proof (intro conjI impI)
  assume r: "in_int64 sid"
  show "dismiss_story sid now db0 =
        Inr (if sid \<in> set (map fst (dismissed db0)) then db0
             else db0\<lparr>dismissed := dismissed db0 @ [(sid, now)]\<rparr>)"
    using r by (rule dismiss_story_in_range)
  show a: "api_dismiss_story sid now db0 =
        (200, if sid \<in> set (map fst (dismissed db0)) then db0
              else db0\<lparr>dismissed := dismissed db0 @ [(sid, now)]\<rparr>)"
    unfolding api_dismiss_story_def dismiss_story_in_range [OF r] by simp
  show "sid \<in> set (map fst (dismissed (snd (api_dismiss_story sid now db0))))"
    unfolding a by simp
next
  assume h: "in_int64 sid \<and> fk_ok db0 \<and> \<not> has_story db0 sid"
  then show e: "add_read_later sid now db0 = Inl IntegrityError"
    by (simp add: add_read_later_no_story)
  show "api_add_read_later sid now db0 = (500, db0)"
    unfolding api_add_read_later_def e by simp
next
  assume n: "\<not> in_int64 sid"
  show "dismiss_story sid now db0 = Inl OverflowError"
    using n by (rule dismiss_story_out_of_range)
  show "api_dismiss_story sid now db0 = (500, db0)"
    unfolding api_dismiss_story_def dismiss_story_out_of_range [OF n] by simp
  show "api_add_read_later sid now db0 = (500, db0)"
    unfolding api_add_read_later_def add_read_later_out_of_range [OF n] by simp
qed

theorem dismiss_and_read_later_asymmetry_witness:
  "in_int64 99 \<and> fk_ok queue_db \<and> \<not> has_story queue_db 99 \<and>
   api_dismiss_story 99 100 queue_db = (200, queue_db\<lparr>dismissed := [(99, 100)]\<rparr>) \<and>
   add_read_later 99 100 queue_db = Inl IntegrityError \<and>
   api_add_read_later 99 100 queue_db = (500, queue_db) \<and>
   fst (api_add_read_later 3 100 queue_db) = 200 \<and>
   \<not> in_int64 (- 9223372036854775809) \<and>
   api_dismiss_story (- 9223372036854775809) 100 queue_db = (500, queue_db)"
proof -
  have r: "in_int64 99" by code_simp
  have fk: "fk_ok queue_db" by code_simp
  have n: "\<not> has_story queue_db 99" by code_simp
  have d: "dismissed queue_db = []" by code_simp
  have ok: "fst (api_add_read_later 3 100 queue_db) = 200" by code_simp
  have o: "\<not> in_int64 (- 9223372036854775809)" by code_simp
  from dismiss_and_read_later_asymmetry [of 99 100 queue_db]
    dismiss_and_read_later_asymmetry [of "- 9223372036854775809" 100 queue_db]
    r fk n d ok o
  show ?thesis by simp
qed

text \<open>
  The claim as stated fails on an id outside 64 bits: the path of the route takes
  \<open>2^63\<close>, the statement of \<open>dismiss_story\<close> cannot bind it, nothing is inserted and
  the route answers 500.
\<close>

theorem dismiss_and_read_later_asymmetry_counterexample:
  "dismiss_story 9223372036854775808 100 queue_db = Inl OverflowError \<and>
   api_dismiss_story 9223372036854775808 100 queue_db = (500, queue_db) \<and>
   dismissed (snd (api_dismiss_story 9223372036854775808 100 queue_db)) = []"
  by code_simp

section \<open>Pagination of the story listing\<close>

lemma url_key_annotate: "url_key (annotate L mw dw r) = url_key r"
  by (simp add: url_key_def annotate_def Let_def scored.defs)

lemma process_rows_props:
  assumes "int (length st) < limit" and "set seen = url_key ` set st"
    and "process_rows L limit ib bwords mw dw rows (st, seen) = (st', seen')"
  shows "int (length st') \<le> limit \<and> set seen' = url_key ` set st' \<and>
         set seen \<subseteq> set seen' \<and>
         (int (length st') < limit \<longrightarrow>
            (\<forall>r \<in> set rows. \<not> title_blocked L ib bwords r \<longrightarrow> url_key r \<in> set seen'))"
  using assms
proof (induction rows arbitrary: st seen)
  case Nil
  then show ?case by simp
next
  case (Cons row rows)
  show ?case
  proof (cases "title_blocked L ib bwords row")
    case True
    with Cons.prems have "process_rows L limit ib bwords mw dw rows (st, seen) = (st', seen')"
      by simp
    from Cons.IH [OF Cons.prems(1,2) this] True show ?thesis by auto
  next
    case nb: False
    show ?thesis
    proof (cases "url_key row \<in> set seen")
      case True
      with nb Cons.prems have "process_rows L limit ib bwords mw dw rows (st, seen) = (st', seen')"
        by simp
      from Cons.IH [OF Cons.prems(1,2) this] True show ?thesis by auto
    next
      case new: False
      let ?st1 = "st @ [annotate L mw dw row]"
      let ?seen1 = "url_key row # seen"
      have k1: "set ?seen1 = url_key ` set ?st1"
        using Cons.prems(2) by (simp add: url_key_annotate)
      show ?thesis
      proof (cases "int (length ?st1) \<ge> limit")
        case True
        with nb new Cons.prems(3) have r: "st' = ?st1" "seen' = ?seen1"
          by (simp_all add: Let_def)
        from Cons.prems(1) have "int (length ?st1) \<le> limit" by simp
        with True k1 show ?thesis unfolding r by auto
      next
        case False
        with nb new Cons.prems(3)
        have "process_rows L limit ib bwords mw dw rows (?st1, ?seen1) = (st', seen')"
          by (simp add: Let_def)
        from Cons.IH [OF _ k1 this] False show ?thesis by auto
      qed
    qed
  qed
qed

lemma cursor_ok_iff_key:
  "cursor_ok sort_dir (Some (s_time x)) (Some (s_id x)) r \<longleftrightarrow>
   order_key sort_dir x < order_key sort_dir r"
  by (auto simp add: cursor_ok_def order_key_def less_prod_def')

lemma sorted_last_max:
  assumes "sorted (map k ys)" and "r \<in> set ys"
  shows "k r \<le> k (last ys)"
proof -
  from assms(2) obtain i where i: "i < length ys" "ys ! i = r"
    by (auto simp add: in_set_conv_nth)
  then have ne: "ys \<noteq> []" by auto
  have "map k ys ! i \<le> map k ys ! (length ys - 1)"
    using assms(1) i by (intro sorted_nth_mono) auto
  with i ne show ?thesis by (simp add: last_conv_nth)
qed

lemma sorted_take_mem:
  assumes s: "sorted (map k ys)" and d: "distinct (map k ys)"
    and ne: "take n ys \<noteq> []" and r: "r \<in> set ys"
    and le: "k r \<le> k (last (take n ys))"
  shows "r \<in> set (take n ys)"
proof -
  let ?m = "length (take n ys)"
  from ne have m: "0 < ?m" by simp
  have m_le: "?m \<le> length ys" by simp
  from r obtain i where i: "i < length ys" "ys ! i = r"
    by (auto simp add: in_set_conv_nth)
  have "?m \<le> n" by simp
  with m have "?m - 1 < n" by arith
  then have "take n ys ! (?m - 1) = ys ! (?m - 1)" by (rule nth_take)
  moreover have "last (take n ys) = take n ys ! (?m - 1)"
    using ne by (rule last_conv_nth)
  ultimately have l: "last (take n ys) = ys ! (?m - 1)" by simp
  show ?thesis
  proof (cases "i < ?m")
    case True
    then have "take n ys ! i = r" using i by simp
    with True show ?thesis by (metis nth_mem)
  next
    case False
    with m have lt: "?m - 1 < i" by arith
    have "map k ys ! (?m - 1) \<le> map k ys ! i"
      using s i lt by (intro sorted_nth_mono) auto
    with i lt have "k (ys ! (?m - 1)) \<le> k r" by simp
    with le l have eq: "k (ys ! (?m - 1)) = k r" by simp
    have "?m - 1 < length (map k ys)" "i < length (map k ys)" using i lt by auto
    with d have "(map k ys ! (?m - 1) = map k ys ! i) = (?m - 1 = i)"
      by (rule nth_eq_iff_index_eq)
    with eq i lt show ?thesis by simp
  qed
qed

lemma sort_key_eq_Nil: "sort_key k xs = [] \<longleftrightarrow> xs = []"
  by (metis length_0_conv length_sort)

lemma query_batch_empty:
  assumes "0 < n" and "query_batch base sort_dir n ct ci = []"
  shows "\<forall>r \<in> set base. \<not> cursor_ok sort_dir ct ci r"
proof -
  from assms have "take (nat n) (sort_key (order_key sort_dir) (filter (cursor_ok sort_dir ct ci) base)) = []"
    by (simp add: query_batch_def rows_beyond_def sql_limit_rows_def)
  with assms(1) have "sort_key (order_key sort_dir) (filter (cursor_ok sort_dir ct ci) base) = []"
    by (simp add: take_eq_Nil)
  then have "filter (cursor_ok sort_dir ct ci) base = []"
    by (simp only: sort_key_eq_Nil)
  then show ?thesis by (simp add: filter_empty_conv)
qed

lemma distinct_sorted_keys:
  assumes "distinct (map k base)"
  shows "distinct (map k (sort_key k (filter P base)))"
proof -
  from assms have "distinct (map k (filter P base))" by (rule distinct_map_filter)
  then have "distinct (filter P base)" "inj_on k (set (filter P base))"
    by (simp_all add: distinct_map)
  then show ?thesis by (simp add: distinct_map)
qed

lemma query_batch_covers:
  assumes n: "0 < n" and d: "distinct (map (order_key sort_dir) base)"
    and ne: "query_batch base sort_dir n ct ci \<noteq> []"
    and r: "r \<in> set base" "cursor_ok sort_dir ct ci r"
    and nr: "\<not> cursor_ok sort_dir (Some (s_time (last (query_batch base sort_dir n ct ci))))
                 (Some (s_id (last (query_batch base sort_dir n ct ci)))) r"
  shows "r \<in> set (query_batch base sort_dir n ct ci)"
proof -
  let ?k = "order_key sort_dir"
  let ?ys = "sort_key ?k (filter (cursor_ok sort_dir ct ci) base)"
  have q: "query_batch base sort_dir n ct ci = take (nat n) ?ys"
    using n by (simp add: query_batch_def rows_beyond_def sql_limit_rows_def)
  have s: "sorted (map ?k ?ys)" by (rule sorted_sort_key)
  have dk: "distinct (map ?k ?ys)" using d by (rule distinct_sorted_keys)
  from r have m: "r \<in> set ?ys" by simp
  from nr have "?k r \<le> ?k (last (take (nat n) ?ys))"
    unfolding q cursor_ok_iff_key by simp
  from sorted_take_mem [OF s dk _ m this] ne show ?thesis unfolding q by simp
qed

lemma query_batch_short:
  assumes n: "0 < n" and ne: "query_batch base sort_dir n ct ci \<noteq> []"
    and short: "int (length (query_batch base sort_dir n ct ci)) \<noteq> n"
  shows "\<forall>r \<in> set base.
           \<not> cursor_ok sort_dir (Some (s_time (last (query_batch base sort_dir n ct ci))))
               (Some (s_id (last (query_batch base sort_dir n ct ci)))) r"
proof
  fix r assume r: "r \<in> set base"
  let ?k = "order_key sort_dir"
  let ?ys = "sort_key ?k (filter (cursor_ok sort_dir ct ci) base)"
  let ?rows = "query_batch base sort_dir n ct ci"
  have q: "?rows = take (nat n) ?ys"
    using n by (simp add: query_batch_def rows_beyond_def sql_limit_rows_def)
  from short n have "length ?ys < nat n" unfolding q by (simp add: min_def split: if_splits)
  then have all: "?rows = ?ys" unfolding q by simp
  from ne have "last ?rows \<in> set ?rows" by simp
  with query_batch_subset [of base sort_dir n ct ci]
  have lc: "cursor_ok sort_dir ct ci (last ?rows)" by auto
  show "\<not> cursor_ok sort_dir (Some (s_time (last ?rows))) (Some (s_id (last ?rows))) r"
  proof (cases "cursor_ok sort_dir ct ci r")
    case True
    with r have "r \<in> set ?ys" by simp
    moreover have "sorted (map ?k ?ys)" by (rule sorted_sort_key)
    ultimately have "?k r \<le> ?k (last ?ys)" by (intro sorted_last_max)
    then show ?thesis unfolding all cursor_ok_iff_key by simp
  next
    case False
    with cursor_ok_trans [OF lc] show ?thesis by blast
  qed
qed

lemma fetch_loop_stop:
  assumes "\<not> (int (length st) < limit \<and> hm)"
  shows "fetch_loop L base sort_dir limit ib bwords mw dw (st, seen, ct, ci, hm) =
         (st, seen, ct, ci, hm)"
  by (subst fetch_loop.simps) (simp only: assms if_False)

lemma fetch_loop_empty:
  assumes "int (length st) < limit" and "hm"
    and "query_batch base sort_dir (limit * 3) ct ci = []"
  shows "fetch_loop L base sort_dir limit ib bwords mw dw (st, seen, ct, ci, hm) =
         (st, seen, ct, ci, False)"
proof -
  from assms(1) have "0 < limit" by (smt (verit) of_nat_0_le_iff)
  with assms show ?thesis by (subst fetch_loop.simps) (simp add: Let_def)
qed

lemma fetch_loop_step:
  assumes "int (length st) < limit" and "hm"
    and "query_batch base sort_dir (limit * 3) ct ci \<noteq> []"
    and "process_rows L limit ib bwords mw dw (query_batch base sort_dir (limit * 3) ct ci)
           (st, seen) = (st', seen')"
  shows "fetch_loop L base sort_dir limit ib bwords mw dw (st, seen, ct, ci, hm) =
         fetch_loop L base sort_dir limit ib bwords mw dw
           (st', seen', Some (s_time (last (query_batch base sort_dir (limit * 3) ct ci))),
            Some (s_id (last (query_batch base sort_dir (limit * 3) ct ci))),
            int (length (query_batch base sort_dir (limit * 3) ct ci)) = limit * 3)"
  using assms by (subst fetch_loop.simps) (simp add: Let_def)

lemma loop_inv_step:
  assumes d: "distinct (map (order_key sort_dir) base)"
    and inv: "loop_inv L base sort_dir limit ib bwords c0t c0i (st, seen, ct, ci, hm)"
    and lt: "int (length st) < limit"
    and ne: "query_batch base sort_dir (limit * 3) ct ci \<noteq> []"
    and pr: "process_rows L limit ib bwords mw dw (query_batch base sort_dir (limit * 3) ct ci)
               (st, seen) = (st', seen')"
  shows "loop_inv L base sort_dir limit ib bwords c0t c0i
           (st', seen', Some (s_time (last (query_batch base sort_dir (limit * 3) ct ci))),
            Some (s_id (last (query_batch base sort_dir (limit * 3) ct ci))),
            int (length (query_batch base sort_dir (limit * 3) ct ci)) = limit * 3)"
proof -
  let ?rows = "query_batch base sort_dir (limit * 3) ct ci"
  let ?nt = "Some (s_time (last ?rows))"
  let ?ni = "Some (s_id (last ?rows))"
  from lt have n: "0 < limit * 3" by (smt (verit) of_nat_0_le_iff)
  from inv have keys: "set seen = url_key ` set st"
    and mono: "\<And>r. cursor_ok sort_dir ct ci r \<Longrightarrow> cursor_ok sort_dir c0t c0i r"
    and cov: "int (length st) < limit \<Longrightarrow> r \<in> set base \<Longrightarrow> cursor_ok sort_dir c0t c0i r \<Longrightarrow>
              \<not> cursor_ok sort_dir ct ci r \<Longrightarrow> \<not> title_blocked L ib bwords r \<Longrightarrow>
              url_key r \<in> set seen" for r
    by (auto simp add: loop_inv_def)
  from process_rows_props [OF lt keys pr]
  have len': "int (length st') \<le> limit" and keys': "set seen' = url_key ` set st'"
    and sub: "set seen \<subseteq> set seen'"
    and all: "int (length st') < limit \<Longrightarrow> r \<in> set ?rows \<Longrightarrow> \<not> title_blocked L ib bwords r \<Longrightarrow>
              url_key r \<in> set seen'" for r
    by auto
  from ne have "last ?rows \<in> set ?rows" by simp
  with query_batch_subset [of base sort_dir "limit * 3" ct ci]
  have lc: "cursor_ok sort_dir ct ci (last ?rows)" by auto
  have mono': "cursor_ok sort_dir c0t c0i r" if "cursor_ok sort_dir ?nt ?ni r" for r
    using mono cursor_ok_trans [OF lc that] by blast
  have cov': "url_key r \<in> set seen'"
    if s: "int (length st') < limit" and r: "r \<in> set base" "cursor_ok sort_dir c0t c0i r"
      "\<not> cursor_ok sort_dir ?nt ?ni r" "\<not> title_blocked L ib bwords r" for r
  proof (cases "cursor_ok sort_dir ct ci r")
    case True
    from query_batch_covers [OF n d ne r(1) True r(3)] have "r \<in> set ?rows" .
    from all [OF s this r(4)] show ?thesis .
  next
    case False
    from cov [OF lt r(1,2) False r(4)] sub show ?thesis by blast
  qed
  have ex: "\<forall>r \<in> set base. \<not> cursor_ok sort_dir ?nt ?ni r"
    if "int (length ?rows) \<noteq> limit * 3"
    using n ne that by (rule query_batch_short)
  show ?thesis
    unfolding loop_inv_def using len' keys' mono' cov' ex by auto
qed

lemma fetch_loop_post:
  assumes "distinct (map (order_key sort_dir) base)"
    and "loop_inv L base sort_dir limit ib bwords c0t c0i s"
  shows "loop_post L base sort_dir limit ib bwords c0t c0i
           (fetch_loop L base sort_dir limit ib bwords mw dw s)"
  using assms
proof (induction L base sort_dir limit ib bwords mw dw s rule: fetch_loop.induct)
  case (1 L base sort_dir limit ib bwords mw dw st seen ct ci hm)
  note d = "1.prems"(1) and inv = "1.prems"(2)
  let ?rows = "query_batch base sort_dir (limit * 3) ct ci"
  from inv have len: "int (length st) \<le> limit \<or> st = []"
    and keys: "set seen = url_key ` set st"
    and cov: "int (length st) < limit \<Longrightarrow> r \<in> set base \<Longrightarrow> cursor_ok sort_dir c0t c0i r \<Longrightarrow>
              \<not> cursor_ok sort_dir ct ci r \<Longrightarrow> \<not> title_blocked L ib bwords r \<Longrightarrow>
              url_key r \<in> set seen"
    and fin: "\<not> hm \<Longrightarrow> r \<in> set base \<Longrightarrow> \<not> cursor_ok sort_dir ct ci r" for r
    by (auto simp add: loop_inv_def)
  show ?case
  proof (cases "int (length st) < limit \<and> hm")
    case False
    have "loop_post L base sort_dir limit ib bwords c0t c0i (st, seen, ct, ci, hm)"
      unfolding loop_post_def using len keys cov fin False by auto
    then show ?thesis by (simp only: fetch_loop_stop [OF False])
  next
    case True
    then have lt: "int (length st) < limit" and hm: "hm" by simp_all
    from lt have n: "0 < limit * 3" by (smt (verit) of_nat_0_le_iff)
    show ?thesis
    proof (cases "?rows = []")
      case True
      from query_batch_empty [OF n True]
      have "loop_post L base sort_dir limit ib bwords c0t c0i (st, seen, ct, ci, False)"
        unfolding loop_post_def using len keys cov lt by auto
      then show ?thesis by (simp only: fetch_loop_empty [OF lt hm True])
    next
      case ne: False
      obtain st' seen' where
        pr: "process_rows L limit ib bwords mw dw ?rows (st, seen) = (st', seen')"
        by (cases "process_rows L limit ib bwords mw dw ?rows (st, seen)") auto
      from loop_inv_step [OF d inv lt ne pr]
      have inv': "loop_inv L base sort_dir limit ib bwords c0t c0i
           (st', seen', Some (s_time (last ?rows)), Some (s_id (last ?rows)),
            int (length ?rows) = limit * 3)" .
      from "1.IH" [OF True refl refl ne pr [symmetric] d inv']
      show ?thesis by (simp only: fetch_loop_step [OF lt hm ne pr])
    qed
  qed
qed

lemma order_key_id: "order_key sort_dir x = order_key sort_dir y \<Longrightarrow> s_id x = s_id y"
  by (auto simp add: order_key_def split: if_splits)

lemma flagged_rows_distinct:
  assumes "pk_ok d"
  shows "distinct (map (order_key sort_dir) (flagged_rows d dismissed_only ib irl))"
proof -
  let ?base = "flagged_rows d dismissed_only ib irl"
  have "map s_id (map (score_row d) (stories d)) = map story_id (stories d)"
    by (simp add: score_row_def)
  with assms have "distinct (map s_id (map (score_row d) (stories d)))"
    by (simp only: pk_ok_def)
  then have "distinct (map s_id ?base)"
    unfolding flagged_rows_def by (rule distinct_map_filter)
  then have di: "distinct ?base" and inj: "inj_on s_id (set ?base)"
    by (simp_all add: distinct_map)
  have "inj_on (order_key sort_dir) (set ?base)"
  proof (rule inj_onI)
    fix x y assume "x \<in> set ?base" "y \<in> set ?base"
      "order_key sort_dir x = order_key sort_dir y"
    with inj order_key_id show "x = y" by (metis inj_onD)
  qed
  with di show ?thesis by (simp add: distinct_map)
qed

text \<open>When the call returns: the first query of the loop, if there is one, runs.\<close>

lemma get_stories_returns:
  "(\<exists>p. get_stories L d dismissed_only ib irl limit ct ci sort_dir = Inr p) \<longleftrightarrow>
   (limit \<le> 0 \<or> first_query_error limit ct ci = None)"
  by (auto simp add: get_stories_def Let_def split: option.splits prod.splits)

text \<open>
  Pagination of the story listing, for a store with distinct story ids and a call that
  returns. The page has at most \<open>limit\<close> stories, none when \<open>limit\<close> is negative.
  \<open>next_cursor\<close> is the string \<open><time>:<id>\<close> of the last story of the page when the
  page is not empty and either \<open>has_more\<close> is true or the page holds \<open>limit\<close> stories;
  otherwise there is no cursor. When the page holds fewer than \<open>limit\<close> stories,
  \<open>has_more\<close> is false and nothing is left: every row beyond the cursor that passes the
  dismissed, blocked-domain, read-later and blocked-word filters has the URL key of a
  story of the page.
\<close>

lemma get_stories_page:
  assumes "pk_ok d"
    and "get_stories L d dismissed_only ib irl limit ct ci sort_dir = Inr p"
  shows "int (length (p_stories p)) \<le> max limit 0 \<and>
         next_cursor p =
           (if p_stories p \<noteq> [] \<and> (has_more p \<or> int (length (p_stories p)) \<ge> limit)
            then Some (cursor_str (last (p_stories p))) else None) \<and>
         (int (length (p_stories p)) < limit \<longrightarrow>
            \<not> has_more p \<and>
            (\<forall>r \<in> set (flagged_rows d dismissed_only ib irl).
               cursor_ok sort_dir ct ci r \<and>
               \<not> title_blocked L ib (map L (blocked_words d)) r \<longrightarrow>
               url_key r \<in> url_key ` set (p_stories p)))"
proof -
  let ?base = "flagged_rows d dismissed_only ib irl"
  let ?bw = "map L (blocked_words d)"
  let ?mw = "word_dict L (merit_words d)"
  let ?dw = "word_dict L (demerit_words d)"
  obtain st seen fct fci hm where
    f: "fetch_loop L ?base sort_dir limit ib ?bw ?mw ?dw ([], [], ct, ci, True) =
          (st, seen, fct, fci, hm)"
    by (metis prod_cases5)
  have inv0: "loop_inv L ?base sort_dir limit ib ?bw ct ci ([], [], ct, ci, True)"
    by (simp add: loop_inv_def)
  from fetch_loop_post [OF flagged_rows_distinct [OF assms(1)] inv0, of ?mw ?dw]
  have post: "loop_post L ?base sort_dir limit ib ?bw ct ci (st, seen, fct, fci, hm)"
    unfolding f .
  then have len: "int (length st) \<le> limit \<or> st = []"
    and keys: "set seen = url_key ` set st"
    and short: "int (length st) < limit \<Longrightarrow> \<not> hm"
    and cov: "int (length st) < limit \<Longrightarrow> r \<in> set ?base \<Longrightarrow> cursor_ok sort_dir ct ci r \<Longrightarrow>
              \<not> title_blocked L ib ?bw r \<Longrightarrow> url_key r \<in> set seen" for r
    by (auto simp add: loop_post_def)
  let ?q = "if 0 < limit then first_query_error limit ct ci else None"
  let ?pg = "\<lparr> p_stories = py_prefix limit st,
               has_more = (int (length st) > limit \<or> hm),
               next_cursor =
                 (if st \<noteq> [] \<and> (hm \<or> int (length st) \<ge> limit)
                  then Some (cursor_str (if int (length st) \<le> limit then last st
                                         else st ! nat (limit - 1)))
                  else None) \<rparr>"
  have g0: "get_stories L d dismissed_only ib irl limit ct ci sort_dir =
            (case ?q of Some e \<Rightarrow> Inl e | None \<Rightarrow> Inr ?pg)"
    unfolding get_stories_def Let_def f by (simp only: prod.case)
  have g: "p = ?pg"
  proof (cases ?q)
    case None
    with g0 assms(2) show ?thesis by (simp only: option.case sum.inject)
  next
    case (Some e)
    with g0 assms(2) show ?thesis by (simp only: option.case sum.distinct)
  qed
  show ?thesis
  proof (cases "st = []")
    case True
    have "py_prefix limit st = []" using True by (simp add: py_prefix_def)
    with True short cov keys show ?thesis
      unfolding g by auto
  next
    case False
    with len have le: "int (length st) \<le> limit" by simp
    then have pre: "py_prefix limit st = st" by (simp add: py_prefix_def)
    from le have nm: "\<not> int (length st) > limit" by simp
    show ?thesis
      unfolding g pre using False le nm short cov keys
      by (auto simp add: image_iff)
  qed
qed

text \<open>
  The test \<open>len(stories) > limit\<close> of \<open>has_more\<close> never holds when stories were
  collected, since the loop over a batch breaks at \<open>limit\<close> stories: the flag is the
  fullness of the last batch.
\<close>

lemma get_stories_has_more:
  assumes "pk_ok d" and "0 \<le> limit"
  shows "get_stories L d dismissed_only ib irl limit ct ci sort_dir =
         (case (if 0 < limit then first_query_error limit ct ci else None) of
            Some e \<Rightarrow> Inl e
          | None \<Rightarrow>
              (case fetch_loop L (flagged_rows d dismissed_only ib irl) sort_dir limit ib
                      (map L (blocked_words d)) (word_dict L (merit_words d))
                      (word_dict L (demerit_words d)) ([], [], ct, ci, True) of
                 (st, seen, fct, fci, hm) \<Rightarrow>
                   Inr \<lparr> p_stories = st, has_more = hm,
                         next_cursor = (if st \<noteq> [] \<and> (hm \<or> int (length st) \<ge> limit)
                                        then Some (cursor_str (last st)) else None) \<rparr>))"
proof -
  let ?base = "flagged_rows d dismissed_only ib irl"
  let ?bw = "map L (blocked_words d)"
  let ?mw = "word_dict L (merit_words d)"
  let ?dw = "word_dict L (demerit_words d)"
  obtain st seen fct fci hm where
    f: "fetch_loop L ?base sort_dir limit ib ?bw ?mw ?dw ([], [], ct, ci, True) =
          (st, seen, fct, fci, hm)"
    by (metis prod_cases5)
  have inv0: "loop_inv L ?base sort_dir limit ib ?bw ct ci ([], [], ct, ci, True)"
    by (simp add: loop_inv_def)
  from fetch_loop_post [OF flagged_rows_distinct [OF assms(1)] inv0, of ?mw ?dw]
  have "loop_post L ?base sort_dir limit ib ?bw ct ci (st, seen, fct, fci, hm)"
    unfolding f .
  then have "int (length st) \<le> limit \<or> st = []" by (simp add: loop_post_def)
  with assms(2) have le: "int (length st) \<le> limit" by auto
  then have pre: "py_prefix limit st = st" using assms(2) by (simp add: py_prefix_def)
  from le have nm: "(int (length st) > limit) = False" by simp
  show ?thesis
  proof (cases "if 0 < limit then first_query_error limit ct ci else None")
    case (Some e)
    show ?thesis unfolding get_stories_def Let_def Some by (simp only: option.case)
  next
    case None
    show ?thesis unfolding get_stories_def Let_def f None using le by (simp add: pre nm)
  qed
qed

text \<open>
  C7. The pagination contract does not hold of \<open>get_stories\<close>. The five stories of the
  queue are listed two to a page, newest first. The one batch of the call has five
  rows, fewer than the six asked for, so the flag of the last batch is down; the page
  is cut after two stories, and \<open>has_more\<close> is false although three stories that pass
  every filter lie beyond the page. The next two pages, from the cursors returned,
  hold them.
\<close>

theorem get_stories_has_more_full_page:
  "map_sum id (\<lambda>p. (map s_id (p_stories p), has_more p, next_cursor p))
     (get_stories lower_excerpt queue_db False False False 2 None None ''newest'') =
     Inr ([2, 3], False, Some (S ''60:3'')) \<and>
   map s_id (filter (\<lambda>r. cursor_ok ''newest'' (Some 60) (Some 3) r \<and>
                          \<not> title_blocked lower_excerpt False
                              (map lower_excerpt (blocked_words queue_db)) r)
               (flagged_rows queue_db False False False)) = [1, 4, 5] \<and>
   map_sum id (\<lambda>p. (map s_id (p_stories p), has_more p, next_cursor p))
     (get_stories lower_excerpt queue_db False False False 2 (Some 60) (Some 3) ''newest'') =
     Inr ([1, 4], False, Some (S ''10:4'')) \<and>
   map_sum id (\<lambda>p. (map s_id (p_stories p), has_more p, next_cursor p))
     (get_stories lower_excerpt queue_db False False False 2 (Some 10) (Some 4) ''newest'') =
     Inr ([5], False, None)"
  by code_simp

text \<open>
  The cursor clause of the contract differs too, by the guard of the source: the last
  page, when it is short, has stories and no cursor.
\<close>

lemma get_stories_last_page_no_cursor:
  "map_sum id (\<lambda>p. (map s_id (p_stories p), has_more p, next_cursor p))
     (get_stories lower_excerpt queue_db False False False 50 None None ''newest'') =
     Inr ([2, 3, 1, 4, 5], False, None)"
  by code_simp

text \<open>
  And the flag can be up with nothing left: a page of one story out of a full batch of
  three, whose two other rows have a blocked word in the title.
\<close>

lemma get_stories_nothing_left:
  "map_sum id (\<lambda>p. (map s_id (p_stories p), has_more p, next_cursor p))
     (get_stories lower_excerpt spam_db False False False 1 None None ''newest'') =
     Inr ([3], True, Some (S ''30:3'')) \<and>
   filter (\<lambda>r. cursor_ok ''newest'' (Some 30) (Some 3) r \<and>
                \<not> title_blocked lower_excerpt False
                    (map lower_excerpt (blocked_words spam_db)) r)
     (flagged_rows spam_db False False False) = []"
  by code_simp

text \<open>A cursor or a limit outside 64 bits: the first query of the call raises.\<close>

lemma get_stories_raises:
  "get_stories lower_excerpt queue_db False False False 2 (Some 9223372036854775808) (Some 3)
     ''newest'' = Inl OverflowError \<and>
   get_stories lower_excerpt queue_db False False False 3074457345618258603 None None
     ''newest'' = Inl IntegrityError"
  by code_simp

end
